theory Spec2Isabelle
  imports Main "HOL-Library.Word" "HOL-Library.Multiset" "HOL-Library.Product_Lexorder"
    "HOL-Library.Mapping" "HOL-Library.AList_Mapping"
begin

unbundle bit_operations_syntax

section \<open>Data model\<close>

text \<open>\<^verbatim>\<open>typedef uint64_t hash_t\<close> and \<^verbatim>\<open>BITS = sizeof(hash_t) * 8\<close> (simhash.h).\<close>

type_synonym hash_t = "64 word"

definition BITS :: nat where
  "BITS = 64"

section \<open>The fingerprint folder: \<^verbatim>\<open>Simhash::compute\<close>\<close>

text \<open>
  The inner loop of \<^verbatim>\<open>compute\<close>: for \<open>i\<close> from its current value up to \<open>BITS\<close>, add
  \<open>+1\<close> or \<open>-1\<close> to \<open>counts[i]\<close> according to the lowest bit of \<open>hash\<close> and shift \<open>hash\<close>
  right by one. The counters are C \<^verbatim>\<open>long\<close>; they are \<open>int\<close> here (a vector of more than
  \<open>2^63\<close> feature hashes does not fit in memory, so the counters never wrap).
\<close>

function count_loop :: "nat \<Rightarrow> hash_t \<Rightarrow> int list \<Rightarrow> int list" where
  "count_loop i hash counts =
     (if i < BITS
      then count_loop (i + 1) (drop_bit 1 hash)
             (counts[i := counts ! i + (if hash AND 1 \<noteq> 0 then 1 else - 1)])
      else counts)"
  by pat_completeness auto
termination
  by (relation "measure (\<lambda>(i, hash, counts). BITS - i)") auto

declare count_loop.simps [simp del]

text \<open>The second loop of \<^verbatim>\<open>compute\<close>: set bit \<open>i\<close> of the result where \<open>counts[i] > 0\<close>.\<close>

function result_loop :: "nat \<Rightarrow> int list \<Rightarrow> hash_t \<Rightarrow> hash_t" where
  "result_loop i counts result =
     (if i < BITS
      then result_loop (i + 1) counts
             (if counts ! i > 0 then result OR push_bit i 1 else result)
      else result)"
  by pat_completeness auto
termination
  by (relation "measure (\<lambda>(i, counts, result). BITS - i)") auto

declare result_loop.simps [simp del]

definition compute :: "hash_t list \<Rightarrow> hash_t" where
  "compute hashes =
     (let counts = fold (\<lambda>hash counts. count_loop 0 hash counts) hashes (replicate BITS 0)
      in result_loop 0 counts 0)"

text \<open>
  The signed vote of the specification: \<open>+1\<close> where bit \<open>i\<close> of a feature hash is set,
  \<open>-1\<close> otherwise, and their sum \<open>c\<^sub>i\<close> over the feature hashes.
\<close>

definition vote :: "hash_t \<Rightarrow> nat \<Rightarrow> int" where
  "vote h i = (if bit h i then 1 else - 1)"

definition signed_count :: "hash_t list \<Rightarrow> nat \<Rightarrow> int" where
  "signed_count hs i = (\<Sum>h\<leftarrow>hs. vote h i)"

section \<open>Bit utilities: \<^verbatim>\<open>Simhash::num_differing_bits\<close>\<close>

text \<open>
  The loop \<^verbatim>\<open>while (n) { ++count; n = n & (n - 1); }\<close> (\<open>cnt\<close> is the code's \<open>count\<close>). It ends because \<open>n AND (n - 1)\<close>
  is smaller than \<open>n\<close> for every non-zero \<open>n\<close>.
\<close>

function count_loop_bits :: "hash_t \<Rightarrow> nat \<Rightarrow> nat" where
  "count_loop_bits n cnt =
     (if n \<noteq> 0 then count_loop_bits (n AND (n - 1)) (cnt + 1) else cnt)"
  by pat_completeness auto
termination
proof (relation "measure (\<lambda>(n, cnt). unat n)")
  show "wf (measure (\<lambda>(n :: hash_t, cnt :: nat). unat n))"
    by simp
next
  fix n :: hash_t and cnt :: nat
  assume nz: "n \<noteq> 0"
  have "n AND (n - 1) \<le> n - 1"
    by (rule word_and_le1)
  moreover have "n - 1 < n"
    using nz by (simp add: word_less_nat_alt unat_minus_one unat_gt_0)
  ultimately have "n AND (n - 1) < n"
    by simp
  then show "((n AND (n - 1), cnt + 1), (n, cnt)) \<in> measure (\<lambda>(n, cnt). unat n)"
    by (simp add: word_less_nat_alt)
qed

declare count_loop_bits.simps [simp del]

definition num_differing_bits :: "hash_t \<Rightarrow> hash_t \<Rightarrow> nat" where
  "num_differing_bits a b = count_loop_bits (a XOR b) 0"

text \<open>The number of set bits of a 64-bit word, as the specification's \<open>popcount\<close>.\<close>

definition popcount :: "hash_t \<Rightarrow> nat" where
  "popcount w = length (filter (bit w) [0..<64])"

section \<open>Errors\<close>

text \<open>
  \<open>InvalidArgument\<close> is \<^verbatim>\<open>std::invalid_argument\<close>. \<open>OutOfBounds\<close> stands for a read of a
  vector past its end and \<open>ShiftTooFar\<close> for a shift of a 64-bit value by 64 or more;
  C++ leaves both undefined, and the model stops there with the error.
\<close>

datatype error = InvalidArgument | OutOfBounds | ShiftTooFar

section \<open>Combinations: \<^verbatim>\<open>Simhash::Permutation::choose\<close>\<close>

text \<open>
  The scan \<^verbatim>\<open>for (; i >= 0; --i) if (indices[i] != i + n - r) break;\<close>. The last argument
  is \<open>i + 1\<close>, so that \<open>0\<close> stands for \<open>i < 0\<close>; the result is \<open>None\<close> when the scan ends
  with \<open>i < 0\<close>.
\<close>

fun find_pivot :: "nat \<Rightarrow> nat \<Rightarrow> nat list \<Rightarrow> nat \<Rightarrow> nat option" where
  "find_pivot n r indices 0 = None"
| "find_pivot n r indices (Suc i) =
     (if indices ! i \<noteq> i + n - r then Some i else find_pivot n r indices i)"

text \<open>\<^verbatim>\<open>for (size_t j = i + 1; j < r; ++j) indices[j] = indices[j - 1] + 1;\<close>\<close>

function fill_loop :: "nat \<Rightarrow> nat \<Rightarrow> nat list \<Rightarrow> nat list" where
  "fill_loop j r indices =
     (if j < r then fill_loop (j + 1) r (indices[j := indices ! (j - 1) + 1]) else indices)"
  by pat_completeness auto
termination
  by (relation "measure (\<lambda>(j, r, indices). r - j)") auto

declare fill_loop.simps [simp del]

text \<open>
  \<^verbatim>\<open>for (size_t j = 0; j < r; ++j) result[j] = population[indices[j]];\<close> with the read of
  \<open>population\<close> checked.
\<close>

definition gather :: "hash_t list \<Rightarrow> nat list \<Rightarrow> error + hash_t list" where
  "gather population indices =
     (if list_all (\<lambda>k. k < length population) indices
      then Inr (map (\<lambda>k. population ! k) indices)
      else Inl OutOfBounds)"

text \<open>
  The \<^verbatim>\<open>while (true)\<close> loop of \<open>choose\<close>. It has no bound of its own, so it is a partial
  function: \<open>None\<close> is a loop that never returns.
\<close>

partial_function (option) choose_loop ::
  "hash_t list \<Rightarrow> nat \<Rightarrow> nat list \<Rightarrow> hash_t list list \<Rightarrow> (error + hash_t list list) option"
where
  "choose_loop population r indices results =
     (case find_pivot (length population) r indices r of
        None \<Rightarrow> Some (Inr results)
      | Some i \<Rightarrow>
          (let indices' = fill_loop (i + 1) r (indices[i := indices ! i + 1])
           in case gather population indices' of
                Inl e \<Rightarrow> Some (Inl e)
              | Inr result \<Rightarrow> choose_loop population r indices' (results @ [result])))"

declare choose_loop.simps [code]

definition Permutation_choose ::
  "hash_t list \<Rightarrow> nat \<Rightarrow> (error + hash_t list list) option" where
  "Permutation_choose population r =
     (let n = length population
      in if r > n then Some (Inl InvalidArgument)
         else let indices = [0..<r]
              in case gather population indices of
                   Inl e \<Rightarrow> Some (Inl e)
                 | Inr result \<Rightarrow> choose_loop population r indices [result])"

text \<open>
  The combinations of the specification: every sublist of \<open>xs\<close> of length \<open>r\<close>, those
  that contain the first element before those that do not, which is the lexicographic
  order of the positions chosen.
\<close>

fun combinations :: "'a list \<Rightarrow> nat \<Rightarrow> 'a list list" where
  "combinations xs 0 = [[]]"
| "combinations [] (Suc r) = []"
| "combinations (x # xs) (Suc r) = map ((#) x) (combinations xs r) @ combinations xs (Suc r)"

text \<open>
  One pass of the body of the \<^verbatim>\<open>while (true)\<close> loop on the indices: \<open>None\<close> where the loop
  returns, the next indices otherwise.
\<close>

definition next_indices :: "nat \<Rightarrow> nat \<Rightarrow> nat list \<Rightarrow> nat list option" where
  "next_indices n r indices =
     (case find_pivot n r indices r of
        None \<Rightarrow> None
      | Some i \<Rightarrow> Some (fill_loop (i + 1) r (indices[i := indices ! i + 1])))"

text \<open>A list in which every element is followed by its successor under \<open>f\<close>.\<close>

fun chain :: "('a \<Rightarrow> 'a option) \<Rightarrow> 'a list \<Rightarrow> bool" where
  "chain f [] = True"
| "chain f [x] = True"
| "chain f (x # y # zs) = (f x = Some y \<and> chain f (y # zs))"

section \<open>One permutation: \<^verbatim>\<open>Simhash::Permutation\<close>\<close>

text \<open>
  The members of the class keep their names behind the prefix \<open>Permutation_\<close>; the field
  \<^verbatim>\<open>search_mask_\<close> is \<open>search_mask_field\<close>.
\<close>

record permutation =
  forward_masks :: "hash_t list"
  reverse_masks :: "hash_t list"
  offsets :: "int list"
  search_mask_field :: hash_t

text \<open>
  \<^verbatim>\<open>for (i = 0; !((1UL << i) & mask); ++i)\<close>: the position of the lowest set bit. For the
  mask 0 the loop reaches \<^verbatim>\<open>1UL << 64\<close>.
\<close>

function scan_low :: "hash_t \<Rightarrow> nat \<Rightarrow> error + nat" where
  "scan_low msk i =
     (if i \<ge> 64 then Inl ShiftTooFar
      else if push_bit i 1 AND msk = 0 then scan_low msk (i + 1)
      else Inr i)"
  by pat_completeness auto
termination
  by (relation "measure (\<lambda>(msk, i). 64 - i)") auto

declare scan_low.simps [simp del]

text \<open>
  \<^verbatim>\<open>for (j = i; j < 64 && ((1UL << j) & mask); ++j)\<close>: the position past the run of set
  bits that starts at \<open>i\<close>.
\<close>

function scan_high :: "hash_t \<Rightarrow> nat \<Rightarrow> nat" where
  "scan_high msk j =
     (if j < 64 \<and> push_bit j 1 AND msk \<noteq> 0 then scan_high msk (j + 1) else j)"
  by pat_completeness auto
termination
  by (relation "measure (\<lambda>(msk, j). 64 - j)") auto

declare scan_high.simps [simp del]

text \<open>
  A shift by a signed offset, as the constructor, \<open>apply\<close> and \<open>reverse\<close> write it:
  \<^verbatim>\<open>offset > 0 ? x << offset : x >> -offset\<close>.
\<close>

definition shift_by :: "int \<Rightarrow> hash_t \<Rightarrow> hash_t" where
  "shift_by offset x = (if offset > 0 then push_bit (nat offset) x else drop_bit (nat (- offset)) x)"

definition shift_back :: "int \<Rightarrow> hash_t \<Rightarrow> hash_t" where
  "shift_back offset x = (if offset > 0 then drop_bit (nat offset) x else push_bit (nat (- offset)) x)"

text \<open>
  The first loop of the constructor, over the masks. The state is the running \<open>width\<close>,
  and the vectors \<open>widths\<close>, \<open>offsets\<close> and \<open>reverse_masks\<close> built so far.
\<close>

fun mask_loop ::
  "hash_t list \<Rightarrow> int \<Rightarrow> nat list \<Rightarrow> int list \<Rightarrow> hash_t list \<Rightarrow>
   error + (nat list \<times> int list \<times> hash_t list)" where
  "mask_loop [] width widths offs rmasks = Inr (widths, offs, rmasks)"
| "mask_loop (msk # msks) width widths offs rmasks =
     (case scan_low msk 0 of
        Inl e \<Rightarrow> Inl e
      | Inr i \<Rightarrow>
          (let j = scan_high msk i;
               width' = width + (int j - int i);
               offset = 64 - width' - int i
           in if - offset \<ge> 64 then Inl ShiftTooFar
              else mask_loop msks width' (widths @ [j - i]) (offs @ [offset])
                     (rmasks @ [shift_by offset msk])))"

text \<open>
  \<^verbatim>\<open>for (width = 0; different_bits < widths.size(); ++different_bits, ++width_it)
    width += *width_it;\<close> with the iterator as the index \<open>k\<close>.
\<close>

function width_loop :: "nat \<Rightarrow> nat list \<Rightarrow> nat \<Rightarrow> int \<Rightarrow> int" where
  "width_loop different_bits widths k width =
     (if different_bits < length widths
      then width_loop (different_bits + 1) widths (k + 1) (width + int (widths ! k))
      else width)"
  by pat_completeness auto
termination
  by (relation "measure (\<lambda>(different_bits, widths, k, width). length widths - different_bits)") auto

declare width_loop.simps [simp del]

text \<open>\<^verbatim>\<open>for (i = 0; i < width; ++i) search_mask_ = (search_mask_ << 1) | 1;\<close>\<close>

function ones_loop :: "int \<Rightarrow> int \<Rightarrow> hash_t \<Rightarrow> hash_t" where
  "ones_loop i width m =
     (if i < width then ones_loop (i + 1) width (push_bit 1 m OR 1) else m)"
  by pat_completeness auto
termination
  by (relation "measure (\<lambda>(i, width, m). nat (width - i))") auto

declare ones_loop.simps [simp del]

text \<open>\<^verbatim>\<open>for (i = width; i < 64; ++i) search_mask_ = search_mask_ << 1;\<close>\<close>

function zeros_loop :: "int \<Rightarrow> hash_t \<Rightarrow> hash_t" where
  "zeros_loop i m = (if i < 64 then zeros_loop (i + 1) (push_bit 1 m) else m)"
  by pat_completeness auto
termination
  by (relation "measure (\<lambda>(i, m). nat (64 - i))") auto

declare zeros_loop.simps [simp del]

text \<open>The constructor \<^verbatim>\<open>Permutation(different_bits, masks)\<close>.\<close>

definition Permutation :: "nat \<Rightarrow> hash_t list \<Rightarrow> error + permutation" where
  "Permutation different_bits msks =
     (case mask_loop msks 0 [] [] [] of
        Inl e \<Rightarrow> Inl e
      | Inr (widths, offs, rmasks) \<Rightarrow>
          (let width = width_loop different_bits widths 0 0
           in Inr \<lparr> forward_masks = msks, reverse_masks = rmasks, offsets = offs,
                    search_mask_field = zeros_loop width (ones_loop 0 width 0) \<rparr>))"

text \<open>
  \<open>apply\<close> and \<open>reverse\<close>: one pass over the masks and the offsets together, OR-ing the
  shifted pieces into the result. The two vectors of a constructed permutation have the
  same length.
\<close>

fun apply_loop :: "hash_t list \<Rightarrow> int list \<Rightarrow> hash_t \<Rightarrow> hash_t \<Rightarrow> hash_t" where
  "apply_loop (msk # msks) (offset # offs) hash result =
     apply_loop msks offs hash (result OR shift_by offset (hash AND msk))"
| "apply_loop msks offs hash result = result"

definition Permutation_apply :: "permutation \<Rightarrow> hash_t \<Rightarrow> hash_t" where
  "Permutation_apply p hash = apply_loop (forward_masks p) (offsets p) hash 0"

fun reverse_loop :: "hash_t list \<Rightarrow> int list \<Rightarrow> hash_t \<Rightarrow> hash_t \<Rightarrow> hash_t" where
  "reverse_loop (msk # msks) (offset # offs) hash result =
     reverse_loop msks offs hash (result OR shift_back offset (hash AND msk))"
| "reverse_loop msks offs hash result = result"

definition Permutation_reverse :: "permutation \<Rightarrow> hash_t \<Rightarrow> hash_t" where
  "Permutation_reverse p hash = reverse_loop (reverse_masks p) (offsets p) hash 0"

definition Permutation_search_mask :: "permutation \<Rightarrow> hash_t" where
  "Permutation_search_mask p = search_mask_field p"

section \<open>The family: \<^verbatim>\<open>Simhash::Permutation::create\<close>\<close>

text \<open>\<^verbatim>\<open>for (size_t j = start; j < end; ++j) mask |= (static_cast<hash_t>(1) << j);\<close>\<close>

function set_bits_loop :: "nat \<Rightarrow> nat \<Rightarrow> hash_t \<Rightarrow> hash_t" where
  "set_bits_loop j end msk =
     (if j < end then set_bits_loop (j + 1) end (msk OR push_bit j 1) else msk)"
  by pat_completeness auto
termination
  by (relation "measure (\<lambda>(j, end, msk). end - j)") auto

declare set_bits_loop.simps [simp del]

definition block_mask :: "nat \<Rightarrow> nat \<Rightarrow> hash_t" where
  "block_mask number_of_blocks i =
     set_bits_loop ((i * BITS) div number_of_blocks) (((i + 1) * BITS) div number_of_blocks) 0"

definition blocks :: "nat \<Rightarrow> hash_t list" where
  "blocks number_of_blocks = map (block_mask number_of_blocks) [0..<number_of_blocks]"

text \<open>
  \<^verbatim>\<open>for (hash_t block : blocks) if (find(choice.begin(), choice.end(), block) ==
  choice.end()) choice.push_back(block);\<close>
\<close>

definition add_remaining :: "hash_t list \<Rightarrow> hash_t list \<Rightarrow> hash_t list" where
  "add_remaining blks choice =
     fold (\<lambda>block choice. if block \<notin> set choice then choice @ [block] else choice) blks choice"

fun build_loop ::
  "nat \<Rightarrow> hash_t list \<Rightarrow> hash_t list list \<Rightarrow> permutation list \<Rightarrow> error + permutation list" where
  "build_loop different_bits blks [] results = Inr results"
| "build_loop different_bits blks (choice # choices) results =
     (case Permutation different_bits (add_remaining blks choice) of
        Inl e \<Rightarrow> Inl e
      | Inr p \<Rightarrow> build_loop different_bits blks choices (results @ [p]))"

definition Permutation_create :: "nat \<Rightarrow> nat \<Rightarrow> (error + permutation list) option" where
  "Permutation_create number_of_blocks different_bits =
     (if number_of_blocks > BITS then Some (Inl InvalidArgument)
      else if number_of_blocks \<le> different_bits then Some (Inl InvalidArgument)
      else let count = number_of_blocks - different_bits
           in case Permutation_choose (blocks number_of_blocks) count of
                None \<Rightarrow> None
              | Some (Inl e) \<Rightarrow> Some (Inl e)
              | Some (Inr choices) \<Rightarrow>
                  Some (build_loop different_bits (blocks number_of_blocks) choices []))"

section \<open>The layout of a permutation\<close>

text \<open>
  A block is the range \<open>[s, e)\<close> of its bit positions, and \<open>range_mask\<close> is its mask, built
  as \<open>create\<close> builds it. Block \<open>i\<close> of \<open>B\<close> blocks covers
  \<open>[i * 64 div B, (i + 1) * 64 div B)\<close>.
\<close>

definition range_mask :: "nat \<times> nat \<Rightarrow> hash_t" where
  "range_mask r = set_bits_loop (fst r) (snd r) 0"

definition block_range :: "nat \<Rightarrow> nat \<Rightarrow> nat \<times> nat" where
  "block_range B i = ((i * 64) div B, ((i + 1) * 64) div B)"

definition positions :: "nat \<times> nat \<Rightarrow> nat list" where
  "positions r = [fst r ..< snd r]"

text \<open>
  A list of ranges is a layout when every range is non-empty and inside the word, and
  the ranges together hold every bit position of the word once.
\<close>

definition layout :: "(nat \<times> nat) list \<Rightarrow> bool" where
  "layout rs \<longleftrightarrow>
     list_all (\<lambda>r. fst r < snd r \<and> snd r \<le> 64) rs \<and>
     mset (concat (map positions rs)) = mset [0..<64]"

text \<open>
  What the constructor computes for a list of ranges, when the ranges before them have
  the total width \<open>W\<close>: the offsets and the reverse masks.
\<close>

fun layout_offsets :: "nat \<Rightarrow> (nat \<times> nat) list \<Rightarrow> int list" where
  "layout_offsets W [] = []"
| "layout_offsets W (r # rs) =
     (64 - int (W + (snd r - fst r)) - int (fst r)) # layout_offsets (W + (snd r - fst r)) rs"

fun layout_reverse_masks :: "nat \<Rightarrow> (nat \<times> nat) list \<Rightarrow> hash_t list" where
  "layout_reverse_masks W [] = []"
| "layout_reverse_masks W (r # rs) =
     shift_by (64 - int (W + (snd r - fst r)) - int (fst r)) (range_mask r)
       # layout_reverse_masks (W + (snd r - fst r)) rs"

text \<open>
  The source position of every bit of the permuted word, from bit 63 down: the
  positions of the first range from its highest down, then those of the second, and
  so on.
\<close>

definition sources :: "(nat \<times> nat) list \<Rightarrow> nat list" where
  "sources rs = concat (map (\<lambda>r. rev (positions r)) rs)"

text \<open>
  The 64-bit value whose top \<open>w\<close> bits are 1 and whose other bits are 0, the search mask
  of the specification for the prefix width \<open>w\<close>.
\<close>

definition prefix_mask :: "nat \<Rightarrow> hash_t" where
  "prefix_mask w = push_bit (64 - w) (mask w)"

definition widths_of :: "(nat \<times> nat) list \<Rightarrow> nat list" where
  "widths_of rs = map (\<lambda>r. snd r - fst r) rs"

text \<open>The permutation that the constructor builds from the masks of a list of ranges.\<close>

definition permutation_of :: "nat \<Rightarrow> (nat \<times> nat) list \<Rightarrow> permutation" where
  "permutation_of d rs =
     \<lparr> forward_masks = map range_mask rs,
       reverse_masks = layout_reverse_masks 0 rs,
       offsets = layout_offsets 0 rs,
       search_mask_field = prefix_mask (sum_list (take (length rs - d) (widths_of rs))) \<rparr>"

text \<open>The ranges of the \<open>B\<close> blocks in their natural order.\<close>

definition block_ranges :: "nat \<Rightarrow> (nat \<times> nat) list" where
  "block_ranges B = map (block_range B) [0..<B]"

text \<open>
  The ranges of one member of the family: the chosen ranges, then the ranges not
  chosen, both in the natural order.
\<close>

definition member_ranges :: "nat \<Rightarrow> (nat \<times> nat) list \<Rightarrow> (nat \<times> nat) list" where
  "member_ranges B chosen = chosen @ filter (\<lambda>r. r \<notin> set chosen) (block_ranges B)"

section \<open>The search: \<^verbatim>\<open>Simhash::find_all\<close>\<close>

type_synonym match_t = "hash_t \<times> hash_t"
type_synonym matches_t = "match_t set"

text \<open>
  The unordered containers of the code are sets here. Where the code iterates over one,
  the order is a parameter: a function from the set to the list of its elements in the
  order of the iteration.
\<close>

definition enumerates :: "('a set \<Rightarrow> 'a list) \<Rightarrow> bool" where
  "enumerates it \<longleftrightarrow> (\<forall>A. finite A \<longrightarrow> set (it A) = A \<and> distinct (it A))"

text \<open>
  The pair loops inside one run: \<open>a\<close> against every later \<open>b\<close> of the run, and the match
  inserted as \<open>(min, max)\<close> of the two unpermuted hashes. The OpenMP threads only insert
  into the match set under the mutex, so their interleaving does not change the set.
\<close>

fun inner_loop :: "permutation \<Rightarrow> nat \<Rightarrow> hash_t \<Rightarrow> hash_t list \<Rightarrow> matches_t \<Rightarrow> matches_t" where
  "inner_loop p different_bits a [] results = results"
| "inner_loop p different_bits a (b # bs) results =
     inner_loop p different_bits a bs
       (if num_differing_bits a b \<le> different_bits
        then (let a_raw = Permutation_reverse p a; b_raw = Permutation_reverse p b
              in insert (min a_raw b_raw, max a_raw b_raw) results)
        else results)"

fun outer_loop :: "permutation \<Rightarrow> nat \<Rightarrow> hash_t list \<Rightarrow> matches_t \<Rightarrow> matches_t" where
  "outer_loop p different_bits [] results = results"
| "outer_loop p different_bits (a # as) results =
     outer_loop p different_bits as (inner_loop p different_bits a as results)"

text \<open>
  The \<^verbatim>\<open>while (start != copy.end())\<close> loop. Its list argument is the part of \<open>copy\<close> from
  \<open>start\<close> on; the run is the longest prefix of it with the prefix of \<open>*start\<close> under the
  mask.
\<close>

function run_loop :: "permutation \<Rightarrow> nat \<Rightarrow> hash_t \<Rightarrow> hash_t list \<Rightarrow> matches_t \<Rightarrow> matches_t" where
  "run_loop p different_bits msk [] results = results"
| "run_loop p different_bits msk (s # rest) results =
     (let prefix = s AND msk;
          run = takeWhile (\<lambda>e. e AND msk = prefix) (s # rest);
          after = dropWhile (\<lambda>e. e AND msk = prefix) (s # rest)
      in run_loop p different_bits msk after (outer_loop p different_bits run results))"
  by pat_completeness auto
termination
proof (relation "measure (\<lambda>(p, different_bits, msk, copy, results). length copy)")
  show "wf (measure (\<lambda>(p :: permutation, different_bits :: nat, msk :: hash_t,
      copy :: hash_t list, results :: matches_t). length copy))"
    by simp
next
  fix p :: permutation and different_bits :: nat and msk s :: hash_t
    and rest :: "hash_t list" and results :: matches_t and x xa xb
  assume "x = s AND msk" and "xb = dropWhile (\<lambda>e. e AND msk = x) (s # rest)"
  then have "length xb \<le> length rest"
    by (simp add: length_dropWhile_le)
  then show "((p, different_bits, msk, xb, outer_loop p different_bits xa results),
      (p, different_bits, msk, s # rest, results))
    \<in> measure (\<lambda>(p, different_bits, msk, copy, results). length copy)"
    by simp
qed

declare run_loop.simps [simp del]

text \<open>The body of the loop over the permutations.\<close>

definition scan_permutation ::
  "hash_t list \<Rightarrow> nat \<Rightarrow> permutation \<Rightarrow> matches_t \<Rightarrow> matches_t" where
  "scan_permutation hashes different_bits p results =
     (let copy = sort (map (Permutation_apply p) hashes);
          msk = Permutation_search_mask p
      in run_loop p different_bits msk copy results)"

definition find_all ::
  "(hash_t set \<Rightarrow> hash_t list) \<Rightarrow> hash_t set \<Rightarrow> nat \<Rightarrow> nat \<Rightarrow> (error + matches_t) option" where
  "find_all it hashes number_of_blocks different_bits =
     (case Permutation_create number_of_blocks different_bits of
        None \<Rightarrow> None
      | Some (Inl e) \<Rightarrow> Some (Inl e)
      | Some (Inr permutations) \<Rightarrow>
          Some (Inr (fold (scan_permutation (it hashes) different_bits) permutations {})))"

text \<open>
  The pairs that the two loops over one run compare: an element with every later
  element. \<open>canonical\<close> is the match that the loops insert for a pair, and
  \<open>prefix_matches\<close> the matches of the pairs of a sorted list that share their prefix
  and are close enough.
\<close>

fun ordered_pairs :: "'a list \<Rightarrow> ('a \<times> 'a) set" where
  "ordered_pairs [] = {}"
| "ordered_pairs (a # as) = (\<lambda>b. (a, b)) ` set as \<union> ordered_pairs as"

definition canonical :: "permutation \<Rightarrow> hash_t \<Rightarrow> hash_t \<Rightarrow> match_t" where
  "canonical p a b =
     (min (Permutation_reverse p a) (Permutation_reverse p b),
      max (Permutation_reverse p a) (Permutation_reverse p b))"

definition prefix_matches :: "permutation \<Rightarrow> nat \<Rightarrow> hash_t \<Rightarrow> hash_t list \<Rightarrow> matches_t" where
  "prefix_matches p d msk xs =
     (\<lambda>ab. canonical p (fst ab) (snd ab)) `
       {ab \<in> ordered_pairs xs. fst ab AND msk = snd ab AND msk \<and>
          num_differing_bits (fst ab) (snd ab) \<le> d}"

section \<open>The clusters: \<^verbatim>\<open>Simhash::find_clusters\<close>\<close>

type_synonym cluster_t = "hash_t set"
type_synonym clusters_t = "cluster_t list"

text \<open>
  \<^verbatim>\<open>nodes\<close> and \<^verbatim>\<open>visited\<close> are mappings. \<^verbatim>\<open>m[k]\<close> reads the default value (the empty set,
  \<^verbatim>\<open>false\<close>) at a key that the mapping does not hold.
\<close>

type_synonym nodes_t = "(hash_t, hash_t set) mapping"
type_synonym visited_t = "(hash_t, bool) mapping"

definition nodes_at :: "nodes_t \<Rightarrow> hash_t \<Rightarrow> hash_t set" where
  "nodes_at nodes k = Mapping.lookup_default {} nodes k"

definition visited_at :: "visited_t \<Rightarrow> hash_t \<Rightarrow> bool" where
  "visited_at visited k = Mapping.lookup_default False visited k"

text \<open>The body of the first loop: the two directed edges of a match, and its two ends unvisited.\<close>

definition add_match :: "match_t \<Rightarrow> nodes_t \<times> visited_t \<Rightarrow> nodes_t \<times> visited_t" where
  "add_match match st =
     (let nodes1 = Mapping.update (fst match)
                     (insert (snd match) (nodes_at (fst st) (fst match))) (fst st);
          nodes2 = Mapping.update (snd match)
                     (insert (fst match) (nodes_at nodes1 (snd match))) nodes1;
          visited1 = Mapping.update (fst match) False (snd st);
          visited2 = Mapping.update (snd match) False visited1
      in (nodes2, visited2))"

text \<open>
  \<^verbatim>\<open>for (hash : nodes[neighbor]) if (!visited[hash]) { frontier.push_back(hash);
  visited[hash] = true; }\<close> over the neighbours in the order of the iteration.
\<close>

definition visit_neighbors ::
  "hash_t list \<Rightarrow> hash_t list \<times> visited_t \<Rightarrow> hash_t list \<times> visited_t" where
  "visit_neighbors hs st =
     fold (\<lambda>hash st. if \<not> visited_at (snd st) hash
                      then (fst st @ [hash], Mapping.update hash True (snd st))
                      else st) hs st"

text \<open>The number of hashes not marked visited; the hashes are finitely many.\<close>

definition unvisited :: "visited_t \<Rightarrow> nat" where
  "unvisited visited = card {h. \<not> visited_at visited h}"

lemma unvisited_update_True:
  "unvisited (Mapping.update h True visited) =
     (if visited_at visited h then unvisited visited else unvisited visited - 1)"
proof -
  have eq: "{k. \<not> visited_at (Mapping.update h True visited) k} =
      {k. \<not> visited_at visited k} - {h}"
    by (auto simp add: visited_at_def lookup_default_update')
  show ?thesis
    unfolding unvisited_def eq by (simp add: card_Diff_singleton_if)
qed

lemma unvisited_pos: "\<not> visited_at visited h \<Longrightarrow> 0 < unvisited visited"
  unfolding unvisited_def by (auto simp add: card_gt_0_iff)

lemma visit_neighbors_measure:
  "length (fst (visit_neighbors hs st)) + unvisited (snd (visit_neighbors hs st)) =
     length (fst st) + unvisited (snd st)"
proof (induction hs arbitrary: st)
  case Nil
  then show ?case by (simp add: visit_neighbors_def)
next
  case (Cons h hs)
  define st' where "st' = (if \<not> visited_at (snd st) h
      then (fst st @ [h], Mapping.update h True (snd st)) else st)"
  have step: "visit_neighbors (h # hs) st = visit_neighbors hs st'"
    by (simp add: visit_neighbors_def st'_def)
  have "length (fst st') + unvisited (snd st') = length (fst st) + unvisited (snd st)"
    using unvisited_pos [of "snd st" h] by (simp add: st'_def unvisited_update_True)
  then show ?case
    unfolding step using Cons [of st'] by simp
qed

text \<open>
  The \<^verbatim>\<open>while (!frontier.empty())\<close> loop. It ends because every pass either marks a
  hash that was not visited or shortens the frontier.
\<close>

function bfs_loop ::
  "(hash_t set \<Rightarrow> hash_t list) \<Rightarrow> nodes_t \<Rightarrow> hash_t list \<Rightarrow> cluster_t \<Rightarrow> visited_t \<Rightarrow>
   cluster_t \<times> visited_t" where
  "bfs_loop it nodes [] cluster visited = (cluster, visited)"
| "bfs_loop it nodes (neighbor # frontier) cluster visited =
     (let st = visit_neighbors (it (nodes_at nodes neighbor))
                 (frontier, Mapping.update neighbor True visited)
      in bfs_loop it nodes (fst st) (insert neighbor cluster) (snd st))"
  by pat_completeness auto
termination bfs_loop
proof (relation "measure (\<lambda>(it, nodes, frontier, cluster, visited).
    unvisited visited + length frontier)")
  show "wf (measure (\<lambda>(it :: hash_t set \<Rightarrow> hash_t list, nodes :: nodes_t,
      frontier :: hash_t list, cluster :: cluster_t, visited :: visited_t).
      unvisited visited + length frontier))"
    by simp
next
  fix it :: "hash_t set \<Rightarrow> hash_t list" and nodes :: nodes_t and neighbor :: hash_t
    and frontier :: "hash_t list" and cluster :: cluster_t and visited :: visited_t and st
  assume st: "st = visit_neighbors (it (nodes_at nodes neighbor))
      (frontier, Mapping.update neighbor True visited)"
  have "length (fst st) + unvisited (snd st) =
      length frontier + unvisited (Mapping.update neighbor True visited)"
    unfolding st using visit_neighbors_measure
      [of "it (nodes_at nodes neighbor)" "(frontier, Mapping.update neighbor True visited)"]
    by simp
  also have "\<dots> \<le> length frontier + unvisited visited"
    by (simp add: unvisited_update_True)
  finally show "((it, nodes, fst st, insert neighbor cluster, snd st),
      (it, nodes, neighbor # frontier, cluster, visited))
    \<in> measure (\<lambda>(it, nodes, frontier, cluster, visited). unvisited visited + length frontier)"
    by simp
qed

declare bfs_loop.simps [simp del]

text \<open>
  The loop over the nodes, in the order of the iteration over \<^verbatim>\<open>nodes\<close>. The neighbours
  of the start node are the first frontier.
\<close>

fun cluster_loop ::
  "(hash_t set \<Rightarrow> hash_t list) \<Rightarrow> nodes_t \<Rightarrow> hash_t list \<Rightarrow> visited_t \<Rightarrow> clusters_t \<Rightarrow>
   clusters_t" where
  "cluster_loop it nodes [] visited clusters = clusters"
| "cluster_loop it nodes (node # rest) visited clusters =
     (if visited_at visited node then cluster_loop it nodes rest visited clusters
      else (let st = bfs_loop it nodes (it (nodes_at nodes node)) {node}
                       (Mapping.update node True visited)
            in cluster_loop it nodes rest (snd st) (clusters @ [fst st])))"

definition find_clusters ::
  "(hash_t set \<Rightarrow> hash_t list) \<Rightarrow> (match_t set \<Rightarrow> match_t list) \<Rightarrow> hash_t set \<Rightarrow> nat \<Rightarrow> nat \<Rightarrow>
   (error + clusters_t) option" where
  "find_clusters it it_matches hashes number_of_blocks different_bits =
     (case find_all it hashes number_of_blocks different_bits of
        None \<Rightarrow> None
      | Some (Inl e) \<Rightarrow> Some (Inl e)
      | Some (Inr matches) \<Rightarrow>
          (let st = fold add_match (it_matches matches) (Mapping.empty, Mapping.empty)
           in Some (Inr (cluster_loop it (fst st) (it (Mapping.keys (fst st))) (snd st) []))))"

text \<open>
  The match graph of the specification: two hashes are adjacent when one of the two
  ordered pairs is a match.
\<close>

definition match_edges :: "matches_t \<Rightarrow> (hash_t \<times> hash_t) set" where
  "match_edges M = M \<union> M\<inverse>"

definition match_endpoints :: "matches_t \<Rightarrow> hash_t set" where
  "match_endpoints M = fst ` M \<union> snd ` M"

section \<open>The fold bit rule\<close>

lemma length_count_loop: "length (count_loop i h c) = length c"
proof (induction i h c rule: count_loop.induct)
  case (1 i hash counts)
  then show ?case by (subst count_loop.simps) simp
qed

lemma and_one_neq_zero_iff: "(h AND 1 \<noteq> 0) = bit h 0" for h :: hash_t
  by (simp add: and_one_eq bit_0 odd_iff_mod_2_eq_one)

lemma nth_count_loop:
  "k < length c \<Longrightarrow>
   count_loop i h c ! k =
     (if i \<le> k \<and> k < BITS then c ! k + vote h (k - i) else c ! k)"
proof (induction i h c rule: count_loop.induct)
  case (1 i hash counts)
  show ?case
  proof (cases "i < BITS")
    case True
    define c' where "c' = counts[i := counts ! i + (if hash AND 1 \<noteq> 0 then 1 else - 1)]"
    define h' where "h' = drop_bit 1 hash"
    have step: "count_loop i hash counts = count_loop (i + 1) h' c'"
      using True by (subst count_loop.simps) (simp add: c'_def h'_def)
    have len: "k < length c'"
      using 1(2) by (simp add: c'_def)
    have ih: "count_loop (i + 1) h' c' ! k =
       (if i + 1 \<le> k \<and> k < BITS then c' ! k + vote h' (k - (i + 1)) else c' ! k)"
      using 1(1) [OF True] len unfolding c'_def h'_def by blast
    have v: "vote h' (k - (i + 1)) = vote hash (k - i)" if "i + 1 \<le> k"
      using that by (simp add: vote_def h'_def bit_drop_bit_eq Suc_diff_Suc)
    have ci: "c' ! i = counts ! i + vote hash 0" if "k = i"
      using 1(2) that by (simp add: c'_def vote_def and_one_neq_zero_iff)
    have ck: "c' ! k = counts ! k" if "k \<noteq> i"
      using that by (simp add: c'_def)
    show ?thesis
    proof (cases "k = i")
      case True
      with \<open>i < BITS\<close> show ?thesis
        unfolding step ih using ci by simp
    next
      case False
      then show ?thesis
        unfolding step ih using ck v by (cases "i + 1 \<le> k") auto
    qed
  next
    case False
    then show ?thesis by (subst count_loop.simps) simp
  qed
qed

lemma length_fold_count_loop:
  "length (fold (\<lambda>hash counts. count_loop 0 hash counts) hs c) = length c"
  by (induction hs arbitrary: c) (simp_all add: length_count_loop)

lemma nth_fold_count_loop:
  "k < length c \<Longrightarrow> k < BITS \<Longrightarrow>
   fold (\<lambda>hash counts. count_loop 0 hash counts) hs c ! k = c ! k + signed_count hs k"
  by (induction hs arbitrary: c)
     (simp_all add: signed_count_def length_count_loop nth_count_loop)

lemma bit_result_loop:
  "bit (result_loop i c r) k \<longleftrightarrow> bit r k \<or> (i \<le> k \<and> k < BITS \<and> c ! k > 0)"
proof (induction i c r rule: result_loop.induct)
  case (1 i counts result)
  show ?case
  proof (cases "i < BITS")
    case True
    define r' where "r' = (if counts ! i > 0 then result OR push_bit i 1 else result)"
    have step: "result_loop i counts result = result_loop (i + 1) counts r'"
      using True by (subst result_loop.simps) (simp add: r'_def)
    have ih: "bit (result_loop (i + 1) counts r') k \<longleftrightarrow>
       bit r' k \<or> (i + 1 \<le> k \<and> k < BITS \<and> counts ! k > 0)"
      using 1 [OF True] unfolding r'_def by blast
    have r: "bit r' k \<longleftrightarrow> bit result k \<or> (k = i \<and> counts ! i > 0)"
      using True by (auto simp add: r'_def bit_or_iff bit_exp_iff BITS_def)
    show ?thesis
      unfolding step ih r using True by (cases "k = i") auto
  next
    case False
    then show ?thesis by (subst result_loop.simps) auto
  qed
qed

lemma bit_compute:
  "bit (compute hs) i \<longleftrightarrow> i < BITS \<and> 0 < signed_count hs i"
proof -
  define c where "c = fold (\<lambda>hash counts. count_loop 0 hash counts) hs (replicate BITS 0)"
  have eq: "compute hs = result_loop 0 c 0"
    unfolding compute_def c_def Let_def ..
  have nth: "c ! i = signed_count hs i" if "i < BITS"
    unfolding c_def using that nth_fold_count_loop [of i "replicate BITS 0" hs] by simp
  show ?thesis
    unfolding eq bit_result_loop using nth by auto
qed

lemma signed_count_filter:
  "signed_count hs i = 2 * int (length (filter (\<lambda>h. bit h i) hs)) - int (length hs)"
  by (induction hs) (simp_all add: signed_count_def vote_def)

text \<open>
  Claim C8. For every sequence of feature hashes and every bit position \<open>i < 64\<close>, bit \<open>i\<close>
  of \<open>compute hs\<close> is set exactly when the signed count \<open>c\<^sub>i\<close> is strictly positive, which
  is exactly when strictly more than half of the feature hashes have bit \<open>i\<close> set; a tie
  (\<open>c\<^sub>i = 0\<close>) gives bit 0, and the empty sequence gives the fingerprint 0.
\<close>

theorem fold_bit_rule:
  "i < 64 \<Longrightarrow>
     (bit (compute hs) i \<longleftrightarrow> 0 < signed_count hs i) \<and>
     (bit (compute hs) i \<longleftrightarrow> length hs < 2 * length (filter (\<lambda>h. bit h i) hs)) \<and>
     (signed_count hs i = 0 \<longrightarrow> \<not> bit (compute hs) i) \<and>
     compute [] = 0"
proof -
  assume "i < 64"
  then have b: "bit (compute hs) i \<longleftrightarrow> 0 < signed_count hs i"
    by (simp add: bit_compute BITS_def)
  have e: "compute [] = 0"
    by (rule bit_eqI) (simp add: bit_compute signed_count_def)
  have m: "0 < signed_count hs i \<longleftrightarrow> length hs < 2 * length (filter (\<lambda>h. bit h i) hs)"
    unfolding signed_count_filter by linarith
  have t: "signed_count hs i = 0 \<longrightarrow> \<not> bit (compute hs) i"
    using b by simp
  show ?thesis
    using b e m t by blast
qed

theorem fold_bit_rule_witness:
  "signed_count [1, 2] 0 = 0 \<and> \<not> bit (compute [1, 2]) 0 \<and>
   0 < signed_count [1, 1, 2] 0 \<and> bit (compute [1, 1, 2]) 0 \<and>
   length [1, 1, 2 :: hash_t] < 2 * length (filter (\<lambda>h. bit h 0) [1, 1, 2 :: hash_t]) \<and>
   compute [1, 1, 2] = 1 \<and> compute [1, 2] = 0 \<and> compute [] = 0"
proof -
  have h: "(0::nat) < 64" by simp
  have s1: "signed_count [1, 2] 0 = 0"
    by (simp add: signed_count_def vote_def)
  have s2: "0 < signed_count [1, 1, 2] 0"
    by (simp add: signed_count_def vote_def)
  have c1: "compute [1, 1, 2] = 1" by code_simp
  have c2: "compute [1, 2] = 0" by code_simp
  show ?thesis
    using fold_bit_rule [OF h, of "[1, 2]"] fold_bit_rule [OF h, of "[1, 1, 2]"] s1 s2 c1 c2
    by blast
qed

section \<open>The Kernighan loop counts the set bits\<close>

lemma popcount_card: "popcount w = card {t. bit w t}"
proof -
  have "{t. bit w t} = {t. bit w t} \<inter> set [0..<64]"
    by (auto dest: bit_imp_le_length)
  then show ?thesis
    unfolding popcount_def by (simp add: distinct_length_filter)
qed

lemma lowest_bit_exists:
  fixes n :: hash_t
  assumes "n \<noteq> 0"
  shows "\<exists>k. bit n k \<and> (\<forall>t. t < k \<longrightarrow> \<not> bit n t)"
proof -
  from assms obtain t where "bit n t"
    by (auto simp add: bit_eq_iff)
  then have "bit n (LEAST t. bit n t)" and "\<And>u. u < (LEAST t. bit n t) \<Longrightarrow> \<not> bit n u"
    by (auto intro: LeastI dest: not_less_Least)
  then show ?thesis
    by blast
qed

lemma bit_and_minus_one:
  fixes n :: hash_t
  assumes k: "bit n k" and low: "\<And>t. t < k \<Longrightarrow> \<not> bit n t"
  shows "bit (n AND (n - 1)) t \<longleftrightarrow> bit n t \<and> t \<noteq> k"
proof -
  define hi :: hash_t where "hi = push_bit (k + 1) (drop_bit (k + 1) n)"
  have k64: "k < 64"
    using k by (auto dest: bit_imp_le_length)
  have hi: "bit hi t \<longleftrightarrow> k < t \<and> bit n t" for t
    unfolding hi_def bit_push_bit_iff bit_drop_bit_eq
    by (auto dest: bit_imp_le_length)
  have n_eq: "n = 2 ^ k + hi"
  proof -
    have d: "(2 ^ k :: hash_t) + hi = 2 ^ k OR hi"
      by (rule disjunctive_add) (auto simp add: bit_exp_iff hi)
    show ?thesis
      unfolding d
    proof (rule bit_eqI)
      fix t
      show "bit n t \<longleftrightarrow> bit (2 ^ k OR hi) t"
        using k low [of t] k64
        by (cases "t < k"; cases "t = k") (auto simp add: bit_or_iff bit_exp_iff hi)
    qed
  qed
  have m_eq: "n - 1 = mask k + hi"
    unfolding mask_eq_exp_minus_1 by (subst n_eq) simp
  have m_or: "n - 1 = mask k OR hi"
    unfolding m_eq by (rule disjunctive_add) (auto simp add: bit_mask_iff hi)
  have "bit (n - 1) t \<longleftrightarrow> t < 64 \<and> (t < k \<or> (k < t \<and> bit n t))"
    unfolding m_or using k64
    by (auto simp add: bit_or_iff bit_mask_iff hi dest: bit_imp_le_length)
  then show ?thesis
    using low [of t] by (auto simp add: bit_and_iff dest: bit_imp_le_length)
qed

lemma popcount_and_minus_one:
  fixes n :: hash_t
  assumes "n \<noteq> 0"
  shows "popcount (n AND (n - 1)) + 1 = popcount n"
proof -
  from lowest_bit_exists [OF assms]
  obtain k where k: "bit n k" and low: "\<And>t. t < k \<Longrightarrow> \<not> bit n t"
    by blast
  have rem: "{t. bit (n AND (n - 1)) t} = {t. bit n t} - {k}"
    using bit_and_minus_one [OF k low] by auto
  have "card {t. bit n t} = Suc (card ({t. bit n t} - {k}))"
    using k by (intro card.remove) simp_all
  then show ?thesis
    unfolding popcount_card rem by simp
qed

lemma popcount_zero: "popcount 0 = 0"
  by (simp add: popcount_def)

lemma count_loop_bits_popcount: "count_loop_bits n c = c + popcount n"
proof (induction n c rule: count_loop_bits.induct)
  case (1 n cnt)
  show ?case
  proof (cases "n = 0")
    case True
    then show ?thesis
      by (subst count_loop_bits.simps) (simp add: popcount_zero)
  next
    case False
    then have "count_loop_bits n cnt = count_loop_bits (n AND (n - 1)) (cnt + 1)"
      by (subst count_loop_bits.simps) simp
    also have "\<dots> = cnt + 1 + popcount (n AND (n - 1))"
      using 1 [OF False] .
    also have "\<dots> = cnt + popcount n"
      using popcount_and_minus_one [OF False] by simp
    finally show ?thesis .
  qed
qed

lemma num_differing_bits_popcount: "num_differing_bits a b = popcount (a XOR b)"
  by (simp add: num_differing_bits_def count_loop_bits_popcount)

section \<open>The loop of choose enumerates the combinations\<close>

lemma find_pivot_Some:
  "i < k \<Longrightarrow> idx ! i \<noteq> i + n - r \<Longrightarrow> (\<forall>j. i < j \<and> j < k \<longrightarrow> idx ! j = j + n - r) \<Longrightarrow>
   find_pivot n r idx k = Some i"
proof (induction k)
  case 0
  then show ?case by simp
next
  case (Suc k)
  show ?case
  proof (cases "i = k")
    case True
    with Suc.prems show ?thesis by simp
  next
    case False
    with Suc.prems have "i < k" by simp
    moreover from Suc.prems False have "idx ! k = k + n - r" by simp
    ultimately show ?thesis
      using Suc by simp
  qed
qed

lemma find_pivot_None:
  "(\<forall>j. j < k \<longrightarrow> idx ! j = j + n - r) \<Longrightarrow> find_pivot n r idx k = None"
  by (induction k) simp_all

lemma upt_add_Suc_Cons: "m = Suc k \<Longrightarrow> [a ..< a + m] = a # [a + 1 ..< a + 1 + k]"
  by (simp add: upt_conv_Cons)

lemma fill_loop_eq:
  "0 < j \<Longrightarrow> j \<le> r \<Longrightarrow> length idx = r \<Longrightarrow>
   fill_loop j r idx = take j idx @ [idx ! (j - 1) + 1 ..< idx ! (j - 1) + 1 + (r - j)]"
proof (induction j r idx rule: fill_loop.induct)
  case (1 j r idx)
  show ?case
  proof (cases "j < r")
    case True
    define v where "v = idx ! (j - 1)"
    define idx' where "idx' = idx[j := v + 1]"
    have step: "fill_loop j r idx = fill_loop (j + 1) r idx'"
      using True by (subst fill_loop.simps) (simp add: idx'_def v_def)
    have ih: "fill_loop (j + 1) r idx' =
        take (j + 1) idx' @ [idx' ! (j + 1 - 1) + 1 ..< idx' ! (j + 1 - 1) + 1 + (r - (j + 1))]"
      using 1(1) [OF True] True 1(4) unfolding idx'_def v_def by simp
    have t: "take (j + 1) idx' = take j idx @ [v + 1]"
      using True 1(4) by (simp add: idx'_def take_Suc_conv_app_nth)
    have n: "idx' ! (j + 1 - 1) = v + 1"
      using True 1(4) by (simp add: idx'_def)
    have "r - j = Suc (r - (j + 1))"
      using True by simp
    then have u: "[v + 1 ..< v + 1 + (r - j)] = (v + 1) # [v + 1 + 1 ..< v + 1 + 1 + (r - (j + 1))]"
      by (rule upt_add_Suc_Cons)
    show ?thesis
      unfolding step ih t n u v_def [symmetric] by (simp only: append_assoc append_Cons append_Nil)
  next
    case False
    with 1(3) have "j = r" by simp
    then show ?thesis
      using 1(4) by (subst fill_loop.simps) simp
  qed
qed

lemma next_indices_boundary:
  assumes len: "length P + 1 + R = r" and lo: "lo + 1 + R < n"
  shows "next_indices n r (P @ lo # [n - R ..< n]) = Some (P @ [lo + 1 ..< lo + 2 + R])"
proof -
  define idx where "idx = P @ lo # [n - R ..< n]"
  have l: "length idx = r"
    using len lo by (simp add: idx_def)
  have at: "idx ! length P = lo"
    by (simp add: idx_def)
  have above: "idx ! j = j + n - r" if "length P < j" "j < r" for j
  proof -
    from that obtain q where q: "j = length P + 1 + q" and "q < R"
      using len by (metis add.assoc less_iff_Suc_add nat_add_left_cancel_less Suc_eq_plus1 add.commute plus_1_eq_Suc)
    then have "idx ! j = [n - R ..< n] ! q"
      by (simp add: idx_def nth_append)
    also have "\<dots> = n - R + q"
      using \<open>q < R\<close> lo by simp
    finally show ?thesis
      using q len lo by simp
  qed
  have piv: "find_pivot n r idx r = Some (length P)"
  proof (rule find_pivot_Some)
    show "length P < r" using len by simp
    show "idx ! length P \<noteq> length P + n - r" using at len lo by simp
    show "\<forall>j. length P < j \<and> j < r \<longrightarrow> idx ! j = j + n - r" using above by blast
  qed
  define idx' where "idx' = idx[length P := idx ! length P + 1]"
  have idx': "idx' = P @ (lo + 1) # [n - R ..< n]"
    by (simp add: idx'_def idx_def)
  have "fill_loop (length P + 1) r idx' =
      take (length P + 1) idx' @
        [idx' ! (length P + 1 - 1) + 1 ..< idx' ! (length P + 1 - 1) + 1 + (r - (length P + 1))]"
    by (rule fill_loop_eq) (use len l in \<open>simp_all add: idx'_def\<close>)
  also have "take (length P + 1) idx' = P @ [lo + 1]"
    by (simp add: idx')
  also have "idx' ! (length P + 1 - 1) = lo + 1"
    by (simp add: idx')
  also have "r - (length P + 1) = R"
    using len by simp
  also have "(P @ [lo + 1]) @ [lo + 1 + 1 ..< lo + 1 + 1 + R] = P @ [lo + 1 ..< lo + 1 + Suc R]"
    using upt_add_Suc_Cons [of "Suc R" R "lo + 1"] by simp
  also have "lo + 1 + Suc R = lo + 2 + R"
    by simp
  finally have "fill_loop (length P + 1) r idx' = P @ [lo + 1 ..< lo + 2 + R]" .
  then show ?thesis
    unfolding next_indices_def idx_def [symmetric] piv idx'_def by simp
qed

lemma next_indices_last:
  assumes "r \<le> n"
  shows "next_indices n r [n - r ..< n] = None"
proof -
  have "find_pivot n r [n - r ..< n] r = None"
    by (rule find_pivot_None) (use assms in auto)
  then show ?thesis
    by (simp add: next_indices_def)
qed


lemma chain_append:
  "chain f A \<Longrightarrow> chain f B \<Longrightarrow> (A \<noteq> [] \<Longrightarrow> B \<noteq> [] \<Longrightarrow> f (last A) = Some (hd B)) \<Longrightarrow>
   chain f (A @ B)"
proof (induction f A rule: chain.induct)
  case (1 f)
  then show ?case by simp
next
  case (2 f x)
  then show ?case by (cases B) simp_all
next
  case (3 f x y zs)
  then show ?case by simp
qed

lemma combinations_short: "length xs < r \<Longrightarrow> combinations xs r = []"
  by (induction xs r rule: combinations.induct) simp_all

lemma combinations_upt_chain:
  "lo + R \<le> n \<Longrightarrow> length P + R = r \<Longrightarrow>
   chain (next_indices n r) (map ((@) P) (combinations [lo..<n] R)) \<and>
   combinations [lo..<n] R \<noteq> [] \<and>
   hd (combinations [lo..<n] R) = [lo ..< lo + R] \<and>
   last (combinations [lo..<n] R) = [n - R ..< n]"
proof (induction "n - lo" arbitrary: lo R P rule: less_induct)
  case less
  show ?case
  proof (cases R)
    case 0
    then show ?thesis by simp
  next
    case (Suc R')
    with less.prems have lo: "lo < n" by simp
    then have upt: "[lo..<n] = lo # [lo + 1 ..< n]"
      by (simp add: upt_conv_Cons)
    define c1 where "c1 = combinations [lo + 1 ..< n] R'"
    define c2 where "c2 = combinations [lo + 1 ..< n] (Suc R')"
    have whole: "combinations [lo..<n] R = map ((#) lo) c1 @ c2"
      unfolding upt Suc c1_def c2_def by simp
    have ih1: "chain (next_indices n r) (map ((@) (P @ [lo])) c1) \<and> c1 \<noteq> [] \<and>
        hd c1 = [lo + 1 ..< lo + 1 + R'] \<and> last c1 = [n - R' ..< n]"
      unfolding c1_def using less.prems Suc lo by (intro less.hyps) simp_all
    have m1: "map ((@) P) (map ((#) lo) c1) = map ((@) (P @ [lo])) c1"
      by simp
    have hd1: "hd (map ((#) lo) c1) = [lo ..< lo + R]"
      using ih1 upt_add_Suc_Cons [of "Suc R'" R' lo] Suc by (simp add: hd_map)
    have last1: "last (map ((#) lo) c1) = lo # [n - R' ..< n]"
      using ih1 by (simp add: last_map)
    show ?thesis
    proof (cases "lo + R = n")
      case True
      then have "c2 = []"
        unfolding c2_def using Suc by (intro combinations_short) simp
      moreover have "lo # [n - R' ..< n] = [n - R ..< n]"
      proof -
        have "n - R = lo" "n - R' = lo + 1"
          using True Suc by simp_all
        then show ?thesis
          using upt by simp
      qed
      ultimately have e: "c2 = []" and l: "last (map ((#) lo) c1) = [n - R ..< n]"
        using last1 by simp_all
      have "chain (next_indices n r) (map ((@) P) (map ((#) lo) c1))"
        unfolding m1 using ih1 by blast
      moreover have "map ((#) lo) c1 \<noteq> []"
        using ih1 by simp
      ultimately show ?thesis
        unfolding whole e append_Nil2 using hd1 l by blast
    next
      case False
      with less.prems have lt: "lo + 1 + R' < n"
        using Suc by simp
      have ih2: "chain (next_indices n r) (map ((@) P) c2) \<and> c2 \<noteq> [] \<and>
          hd c2 = [lo + 1 ..< lo + 1 + Suc R'] \<and> last c2 = [n - Suc R' ..< n]"
        unfolding c2_def using less.prems Suc lo lt by (intro less.hyps) simp_all
      have b: "next_indices n r (P @ lo # [n - R' ..< n]) = Some (P @ [lo + 1 ..< lo + 2 + R'])"
        using less.prems Suc lt by (intro next_indices_boundary) simp_all
      have "chain (next_indices n r) (map ((@) P) (map ((#) lo) c1) @ map ((@) P) c2)"
      proof (rule chain_append)
        show "chain (next_indices n r) (map ((@) P) (map ((#) lo) c1))"
          unfolding m1 using ih1 by simp
        show "chain (next_indices n r) (map ((@) P) c2)"
          using ih2 by simp
        show "next_indices n r (last (map ((@) P) (map ((#) lo) c1))) =
            Some (hd (map ((@) P) c2))"
          using ih1 ih2 b by (simp add: last_map hd_map)
      qed
      moreover have "map ((#) lo) c1 @ c2 \<noteq> []"
        using ih2 by simp
      moreover have "hd (map ((#) lo) c1 @ c2) = [lo ..< lo + R]"
        using hd1 ih1 by simp
      moreover have "last (map ((#) lo) c1 @ c2) = [n - R ..< n]"
        using ih2 Suc by simp
      ultimately show ?thesis
        unfolding whole map_append by blast
    qed
  qed
qed


lemma combinations_subset: "c \<in> set (combinations xs r) \<Longrightarrow> set c \<subseteq> set xs"
proof (induction xs r arbitrary: c rule: combinations.induct)
  case (1 xs)
  then show ?case by simp
next
  case (2 r)
  then show ?case by simp
next
  case (3 x xs r)
  from 3(3) consider t where "c = x # t" "t \<in> set (combinations xs r)"
    | "c \<in> set (combinations xs (Suc r))"
    by auto
  then show ?case
  proof cases
    case 1
    with 3(1) [of t] show ?thesis by auto
  next
    case 2
    with 3(2) [of c] show ?thesis by auto
  qed
qed

lemma combinations_length: "c \<in> set (combinations xs r) \<Longrightarrow> length c = r"
  by (induction xs r arbitrary: c rule: combinations.induct) auto

lemma map_combinations: "map (map f) (combinations xs r) = combinations (map f xs) r"
proof (induction xs r rule: combinations.induct)
  case (1 xs)
  then show ?case by simp
next
  case (2 r)
  then show ?case by simp
next
  case (3 x xs r)
  have "map (map f) (map ((#) x) (combinations xs r)) =
      map ((#) (f x)) (map (map f) (combinations xs r))"
    by (simp add: comp_def)
  then show ?case
    using 3 by (simp del: map_map)
qed

lemma gather_in_range:
  "set idx \<subseteq> {..<length population} \<Longrightarrow>
   gather population idx = Inr (map (\<lambda>k. population ! k) idx)"
  by (auto simp add: gather_def list_all_iff)

lemma choose_loop_chain:
  "chain (next_indices (length population) r) (idx # rest) \<Longrightarrow>
   next_indices (length population) r (last (idx # rest)) = None \<Longrightarrow>
   (\<forall>c \<in> set rest. set c \<subseteq> {..<length population}) \<Longrightarrow>
   choose_loop population r idx results =
     Some (Inr (results @ map (map (\<lambda>k. population ! k)) rest))"
proof (induction rest arbitrary: idx results)
  case Nil
  then have "find_pivot (length population) r idx r = None"
    by (simp add: next_indices_def split: option.splits)
  then show ?case
    by (subst choose_loop.simps) simp
next
  case (Cons nxt rest)
  from Cons.prems(1) have n: "next_indices (length population) r idx = Some nxt"
    and ch: "chain (next_indices (length population) r) (nxt # rest)"
    by simp_all
  from n obtain i where i: "find_pivot (length population) r idx r = Some i"
    and f: "fill_loop (i + 1) r (idx[i := idx ! i + 1]) = nxt"
    by (auto simp add: next_indices_def split: option.splits)
  have g: "gather population nxt = Inr (map (\<lambda>k. population ! k) nxt)"
    using Cons.prems(3) by (intro gather_in_range) simp
  have "choose_loop population r idx results =
      choose_loop population r nxt (results @ [map (\<lambda>k. population ! k) nxt])"
    using f g by (subst choose_loop.simps) (simp add: i Let_def)
  also have "\<dots> = Some (Inr ((results @ [map (\<lambda>k. population ! k) nxt]) @
      map (map (\<lambda>k. population ! k)) rest))"
    using ch Cons.prems(2,3) by (intro Cons.IH) simp_all
  finally show ?case
    by simp
qed

lemma Permutation_choose_combinations:
  assumes "r \<le> length population"
  shows "Permutation_choose population r = Some (Inr (combinations population r))"
proof -
  define n where "n = length population"
  define cs where "cs = combinations [0..<n] r"
  have props: "chain (next_indices n r) (map ((@) []) cs) \<and> cs \<noteq> [] \<and>
      hd cs = [0 ..< 0 + r] \<and> last cs = [n - r ..< n]"
    unfolding cs_def using assms by (intro combinations_upt_chain) (simp_all add: n_def)
  then obtain rest where cs: "cs = [0..<r] # rest"
    by (cases cs) auto
  have "map ((@) []) cs = cs"
    by (simp add: map_idI)
  then have ch: "chain (next_indices (length population) r) ([0..<r] # rest)"
    using props unfolding cs n_def by metis
  have la: "next_indices (length population) r (last ([0..<r] # rest)) = None"
    using props next_indices_last [of r n] assms by (simp add: cs n_def)
  have rg: "\<forall>c \<in> set rest. set c \<subseteq> {..<length population}"
  proof
    fix c assume "c \<in> set rest"
    then have "c \<in> set (combinations [0..<n] r)"
      by (simp add: cs_def [symmetric] cs)
    then show "set c \<subseteq> {..<length population}"
      using combinations_subset [of c "[0..<n]" r] by (auto simp add: n_def)
  qed
  have g: "gather population [0..<r] = Inr (map (\<lambda>k. population ! k) [0..<r])"
    using assms by (intro gather_in_range) auto
  have "Permutation_choose population r =
      choose_loop population r [0..<r] [map (\<lambda>k. population ! k) [0..<r]]"
    using assms by (simp add: Permutation_choose_def Let_def g)
  also have "\<dots> = Some (Inr ([map (\<lambda>k. population ! k) [0..<r]] @
      map (map (\<lambda>k. population ! k)) rest))"
    using ch la rg by (rule choose_loop_chain)
  also have "[map (\<lambda>k. population ! k) [0..<r]] @ map (map (\<lambda>k. population ! k)) rest =
      map (map (\<lambda>k. population ! k)) cs"
    by (simp add: cs)
  also have "\<dots> = combinations (map (\<lambda>k. population ! k) [0..<n]) r"
    unfolding cs_def by (rule map_combinations)
  also have "map (\<lambda>k. population ! k) [0..<n] = population"
    unfolding n_def by (rule map_nth)
  finally show ?thesis .
qed

section \<open>Range masks, scans and shifts\<close>

lemma bit_set_bits_loop:
  "bit (set_bits_loop j e m) t \<longleftrightarrow> bit m t \<or> (j \<le> t \<and> t < e \<and> t < 64)"
proof (induction j e m rule: set_bits_loop.induct)
  case (1 j e m)
  show ?case
  proof (cases "j < e")
    case True
    define m' where "m' = m OR push_bit j 1"
    have step: "set_bits_loop j e m = set_bits_loop (j + 1) e m'"
      using True by (subst set_bits_loop.simps) (simp add: m'_def)
    have ih: "bit (set_bits_loop (j + 1) e m') t \<longleftrightarrow> bit m' t \<or> (j + 1 \<le> t \<and> t < e \<and> t < 64)"
      using 1 [OF True] unfolding m'_def .
    have m': "bit m' t \<longleftrightarrow> bit m t \<or> (t = j \<and> t < 64)"
      by (auto simp add: m'_def bit_or_iff bit_exp_iff)
    show ?thesis
      unfolding step ih m' using True by (cases "t = j") auto
  next
    case False
    then show ?thesis
      by (subst set_bits_loop.simps) auto
  qed
qed

lemma bit_range_mask: "bit (range_mask r) t \<longleftrightarrow> fst r \<le> t \<and> t < snd r \<and> t < 64"
  by (simp add: range_mask_def bit_set_bits_loop)

lemma block_mask_range: "block_mask B i = range_mask (block_range B i)"
  by (simp add: block_mask_def range_mask_def block_range_def BITS_def)

lemma exp_and_eq_0_iff: "(2 ^ i AND m = 0) = (\<not> bit m i)" for m :: hash_t
  using and_exp_eq_0_iff_not_bit [of m i] by (simp add: and.commute)

lemma scan_low_range:
  "fst r < snd r \<Longrightarrow> snd r \<le> 64 \<Longrightarrow> i \<le> fst r \<Longrightarrow> scan_low (range_mask r) i = Inr (fst r)"
proof (induction "fst r - i" arbitrary: i)
  case 0
  then have "i = fst r" by simp
  with 0 show ?case
    by (subst scan_low.simps) (simp add: exp_and_eq_0_iff bit_range_mask)
next
  case (Suc k)
  then have "i < fst r" by simp
  with Suc.prems have "scan_low (range_mask r) i = scan_low (range_mask r) (i + 1)"
    by (subst scan_low.simps) (simp add: exp_and_eq_0_iff bit_range_mask)
  also have "\<dots> = Inr (fst r)"
    using Suc.prems Suc.hyps(2) \<open>i < fst r\<close> by (intro Suc.hyps(1)) simp_all
  finally show ?case .
qed

lemma scan_high_range:
  "snd r \<le> 64 \<Longrightarrow> fst r \<le> j \<Longrightarrow> j \<le> snd r \<Longrightarrow> scan_high (range_mask r) j = snd r"
proof (induction "snd r - j" arbitrary: j)
  case 0
  then have "j = snd r" by simp
  with 0 show ?case
    by (subst scan_high.simps) (auto simp add: exp_and_eq_0_iff bit_range_mask)
next
  case (Suc k)
  then have "j < snd r" by simp
  with Suc.prems have "scan_high (range_mask r) j = scan_high (range_mask r) (j + 1)"
    by (subst scan_high.simps) (simp add: exp_and_eq_0_iff bit_range_mask)
  also have "\<dots> = snd r"
    using Suc.prems Suc.hyps(2) \<open>j < snd r\<close> by (intro Suc.hyps(1)) simp_all
  finally show ?case .
qed

lemma popcount_range_mask: "snd r \<le> 64 \<Longrightarrow> popcount (range_mask r) = snd r - fst r"
proof -
  assume "snd r \<le> 64"
  then have "{t. bit (range_mask r) t} = {fst r ..< snd r}"
    by (auto simp add: bit_range_mask)
  then show ?thesis
    by (simp add: popcount_card)
qed

lemma bit_shift_by:
  "bit (shift_by off x) t \<longleftrightarrow> t < 64 \<and> off \<le> int t \<and> bit x (nat (int t - off))" for x :: hash_t
proof (cases "off > 0")
  case True
  have "nat off \<le> t \<Longrightarrow> t - nat off = nat (int t - off)"
    using True by simp
  then show ?thesis
    using True by (auto simp add: shift_by_def bit_push_bit_iff dest: bit_imp_le_length)
next
  case False
  then have "t + nat (- off) = nat (int t - off)"
    by simp
  then show ?thesis
    using False by (auto simp add: shift_by_def bit_drop_bit_eq add.commute dest: bit_imp_le_length)
qed

lemma bit_shift_back:
  "bit (shift_back off x) t \<longleftrightarrow> t < 64 \<and> - off \<le> int t \<and> bit x (nat (int t + off))" for x :: hash_t
proof (cases "off > 0")
  case True
  then have "t + nat off = nat (int t + off)"
    by simp
  then show ?thesis
    using True by (auto simp add: shift_back_def bit_drop_bit_eq add.commute dest: bit_imp_le_length)
next
  case False
  have "nat (- off) \<le> t \<Longrightarrow> t - nat (- off) = nat (int t + off)"
    using False by simp
  then show ?thesis
    using False by (auto simp add: shift_back_def bit_push_bit_iff dest: bit_imp_le_length)
qed

section \<open>The constructor on a list of ranges\<close>

lemma mask_loop_layout:
  "list_all (\<lambda>r. fst r < snd r \<and> snd r \<le> 64) rs \<Longrightarrow>
   W + sum_list (widths_of rs) \<le> 64 \<Longrightarrow>
   mask_loop (map range_mask rs) (int W) ws offs rms =
     Inr (ws @ widths_of rs, offs @ layout_offsets W rs, rms @ layout_reverse_masks W rs)"
proof (induction rs arbitrary: W ws offs rms)
  case Nil
  then show ?case by (simp add: widths_of_def)
next
  case (Cons r rs)
  define w where "w = snd r - fst r"
  from Cons.prems have r: "fst r < snd r" "snd r \<le> 64"
    and rs: "list_all (\<lambda>r. fst r < snd r \<and> snd r \<le> 64) rs"
    and sum: "(W + w) + sum_list (widths_of rs) \<le> 64"
    by (simp_all add: widths_of_def w_def)
  have lo: "scan_low (range_mask r) 0 = Inr (fst r)"
    using r by (intro scan_low_range) simp_all
  have hi: "scan_high (range_mask r) (fst r) = snd r"
    using r by (intro scan_high_range) simp_all
  define W' where "W' = int W + (int (snd r) - int (fst r))"
  define off where "off = 64 - W' - int (fst r)"
  have W': "W' = int (W + w)"
    using r by (simp add: W'_def w_def)
  have off: "off = 64 - int (W + w) - int (fst r)"
    by (simp add: off_def W')
  have ok: "\<not> - off \<ge> 64"
    using r sum by (simp add: off)
  have "mask_loop (map range_mask (r # rs)) (int W) ws offs rms =
      (if - off \<ge> 64 then Inl ShiftTooFar
       else mask_loop (map range_mask rs) W' (ws @ [w]) (offs @ [off])
        (rms @ [shift_by off (range_mask r)]))"
    unfolding list.map mask_loop.simps lo sum.case Let_def hi W'_def [symmetric]
      off_def [symmetric] w_def [symmetric] ..
  also have "\<dots> = mask_loop (map range_mask rs) (int (W + w)) (ws @ [w]) (offs @ [off])
        (rms @ [shift_by off (range_mask r)])"
    using ok by (simp add: W')
  also have "\<dots> = Inr ((ws @ [w]) @ widths_of rs, (offs @ [off]) @ layout_offsets (W + w) rs,
      (rms @ [shift_by off (range_mask r)]) @ layout_reverse_masks (W + w) rs)"
    using rs sum by (rule Cons.IH)
  finally show ?case
    by (simp add: widths_of_def w_def off)
qed

lemma width_loop_sum:
  "k + (length ws - d) \<le> length ws \<Longrightarrow>
   width_loop d ws k acc = acc + int (sum_list (take (length ws - d) (drop k ws)))"
proof (induction d ws k acc rule: width_loop.induct)
  case (1 d ws k acc)
  show ?case
  proof (cases "d < length ws")
    case True
    with 1(2) have k: "k < length ws" by simp
    have step: "width_loop d ws k acc = width_loop (d + 1) ws (k + 1) (acc + int (ws ! k))"
      using True by (subst width_loop.simps) simp
    have ih: "width_loop (d + 1) ws (k + 1) (acc + int (ws ! k)) =
        acc + int (ws ! k) + int (sum_list (take (length ws - (d + 1)) (drop (k + 1) ws)))"
      using 1(1) [OF True] 1(2) True by simp
    have "length ws - d = Suc (length ws - (d + 1))"
      using True by simp
    then have "take (length ws - d) (drop k ws) =
        ws ! k # take (length ws - (d + 1)) (drop (k + 1) ws)"
      using k by (simp add: Cons_nth_drop_Suc [symmetric])
    then show ?thesis
      unfolding step ih by simp
  next
    case False
    then show ?thesis
      by (subst width_loop.simps) simp
  qed
qed

lemma ones_loop_eq:
  "i \<le> w \<Longrightarrow> ones_loop i w m = push_bit (nat (w - i)) m OR mask (nat (w - i))"
proof (induction i w m rule: ones_loop.induct)
  case (1 i w m)
  show ?case
  proof (cases "i < w")
    case True
    define n where "n = nat (w - (i + 1))"
    have n: "nat (w - i) = Suc n"
      using True by (simp add: n_def)
    have step: "ones_loop i w m = ones_loop (i + 1) w (push_bit 1 m OR 1)"
      using True by (subst ones_loop.simps) simp
    have ih: "ones_loop (i + 1) w (push_bit 1 m OR 1) =
        push_bit n (push_bit 1 m OR 1) OR mask n"
      using 1(1) [OF True] True by (simp add: n_def)
    have "push_bit n (push_bit 1 m OR 1) OR mask n = push_bit (Suc n) m OR mask (Suc n)"
    proof (rule bit_eqI)
      fix t
      show "bit (push_bit n (push_bit 1 m OR 1) OR mask n) t \<longleftrightarrow>
          bit (push_bit (Suc n) m OR mask (Suc n)) t"
        by (cases "t = n")
           (auto simp add: bit_or_iff bit_push_bit_iff bit_mask_iff bit_1_iff bit_exp_iff
              simp del: push_bit_Suc mask_Suc_exp dest: bit_imp_le_length)
    qed
    then show ?thesis
      unfolding step ih n .
  next
    case False
    with 1(2) have "i = w" by simp
    then show ?thesis
      by (subst ones_loop.simps) simp
  qed
qed

lemma zeros_loop_eq: "i \<le> 64 \<Longrightarrow> zeros_loop i m = push_bit (nat (64 - i)) m"
proof (induction i m rule: zeros_loop.induct)
  case (1 i m)
  show ?case
  proof (cases "i < 64")
    case True
    have n: "nat (64 - i) = Suc (nat (64 - (i + 1)))"
      using True by simp
    have step: "zeros_loop i m = zeros_loop (i + 1) (push_bit 1 m)"
      using True by (subst zeros_loop.simps) simp
    have ih: "zeros_loop (i + 1) (push_bit 1 m) = push_bit (nat (64 - (i + 1))) (push_bit 1 m)"
      using 1(1) [OF True] True by simp
    show ?thesis
      unfolding step ih n by (simp add: push_bit_double)
  next
    case False
    with 1(2) have "i = 64" by simp
    then show ?thesis
      by (subst zeros_loop.simps) simp
  qed
qed

lemma search_mask_loops:
  "w \<le> 64 \<Longrightarrow> zeros_loop (int w) (ones_loop 0 (int w) 0) = prefix_mask w"
  by (simp add: ones_loop_eq zeros_loop_eq prefix_mask_def nat_diff_distrib')

lemma bit_prefix_mask: "w \<le> 64 \<Longrightarrow> bit (prefix_mask w) t \<longleftrightarrow> 64 - w \<le> t \<and> t < 64"
  by (auto simp add: prefix_mask_def bit_push_bit_iff bit_mask_iff)


lemma rev_positions_nth: "n < snd r - fst r \<Longrightarrow> rev (positions r) ! n = snd r - 1 - n"
  by (simp add: positions_def rev_nth)

lemma sources_Cons: "sources (r # rs) = rev (positions r) @ sources rs"
  by (simp add: sources_def)

lemma length_sources: "length (sources rs) = sum_list (widths_of rs)"
  by (induction rs) (simp_all add: sources_def widths_of_def positions_def)

lemma bit_apply_piece:
  assumes "fst r < snd r" and "snd r \<le> 64" and "W + (snd r - fst r) \<le> 64"
  shows "bit (shift_by (64 - int (W + (snd r - fst r)) - int (fst r)) (h AND range_mask r)) t \<longleftrightarrow>
     64 - (W + (snd r - fst r)) \<le> t \<and> t < 64 - W \<and> bit h (t + W + snd r - 64)"
proof -
  define off where "off = 64 - int (W + (snd r - fst r)) - int (fst r)"
  have u: "nat (int t - off) = t + W + snd r - 64"
    using assms by (simp add: off_def; linarith)
  have o: "off \<le> int t \<longleftrightarrow> 64 \<le> t + W + snd r"
    using assms by (simp add: off_def; linarith)
  show ?thesis
    unfolding off_def [symmetric] bit_shift_by bit_and_iff bit_range_mask u o
    using assms by auto
qed

lemma bit_reverse_piece:
  assumes "fst r < snd r" and "snd r \<le> 64" and "W + (snd r - fst r) \<le> 64"
  shows "bit (shift_back (64 - int (W + (snd r - fst r)) - int (fst r))
        (h AND shift_by (64 - int (W + (snd r - fst r)) - int (fst r)) (range_mask r))) b \<longleftrightarrow>
     fst r \<le> b \<and> b < snd r \<and> bit h (b + 64 - W - snd r)"
proof -
  define off where "off = 64 - int (W + (snd r - fst r)) - int (fst r)"
  have u: "nat (int b + off) = b + 64 - W - snd r"
    using assms by (simp add: off_def; linarith)
  have o: "- off \<le> int b \<longleftrightarrow> W + snd r \<le> b + 64"
    using assms by (simp add: off_def; linarith)
  have m: "bit (shift_by off (range_mask r)) t \<longleftrightarrow> 64 - (W + (snd r - fst r)) \<le> t \<and> t < 64 - W" for t
    using bit_apply_piece [OF assms, of "- 1" t] assms by (simp add: off_def; linarith)
  show ?thesis
    unfolding off_def [symmetric] bit_shift_back bit_and_iff m u o
    using assms by auto
qed

lemma bit_apply_loop:
  "list_all (\<lambda>r. fst r < snd r \<and> snd r \<le> 64) rs \<Longrightarrow>
   W + sum_list (widths_of rs) \<le> 64 \<Longrightarrow>
   bit (apply_loop (map range_mask rs) (layout_offsets W rs) h res) t \<longleftrightarrow>
     bit res t \<or> (t < 64 - W \<and> 63 - W - t < length (sources rs) \<and>
       bit h (sources rs ! (63 - W - t)))"
proof (induction rs arbitrary: W res)
  case Nil
  then show ?case by (simp add: sources_def)
next
  case (Cons r rs)
  define w where "w = snd r - fst r"
  define piece where
    "piece = shift_by (64 - int (W + (snd r - fst r)) - int (fst r)) (h AND range_mask r)"
  from Cons.prems have r: "fst r < snd r" "snd r \<le> 64" "W + (snd r - fst r) \<le> 64"
    and rs: "list_all (\<lambda>r. fst r < snd r \<and> snd r \<le> 64) rs"
    and sum: "(W + w) + sum_list (widths_of rs) \<le> 64"
    by (simp_all add: widths_of_def w_def)
  have p: "bit piece t \<longleftrightarrow> 64 - (W + w) \<le> t \<and> t < 64 - W \<and> bit h (t + W + snd r - 64)"
    unfolding piece_def w_def by (rule bit_apply_piece [OF r])
  have ih: "bit (apply_loop (map range_mask rs) (layout_offsets (W + w) rs) h (res OR piece)) t \<longleftrightarrow>
      bit (res OR piece) t \<or> (t < 64 - (W + w) \<and> 63 - (W + w) - t < length (sources rs) \<and>
        bit h (sources rs ! (63 - (W + w) - t)))"
    using rs sum by (rule Cons.IH)
  have step: "apply_loop (map range_mask (r # rs)) (layout_offsets W (r # rs)) h res =
      apply_loop (map range_mask rs) (layout_offsets (W + w) rs) h (res OR piece)"
    by (simp add: piece_def w_def)
  have lw: "length (rev (positions r)) = w"
    by (simp add: positions_def w_def)
  show ?case
  proof (cases "64 - (W + w) \<le> t")
    case True
    show ?thesis
    proof (cases "t < 64 - W")
      case inside: True
      have n: "63 - W - t < w"
        using True inside r by (simp add: w_def; linarith)
      have "sources (r # rs) ! (63 - W - t) = rev (positions r) ! (63 - W - t)"
        unfolding sources_Cons using n lw by (simp add: nth_append)
      also have "\<dots> = snd r - 1 - (63 - W - t)"
        using n by (intro rev_positions_nth) (simp add: w_def)
      also have "\<dots> = t + W + snd r - 64"
        using True inside r by (simp add: w_def; linarith)
      finally have src: "sources (r # rs) ! (63 - W - t) = t + W + snd r - 64" .
      have len: "63 - W - t < length (sources (r # rs))"
        unfolding sources_Cons using n lw by simp
      show ?thesis
        unfolding step ih bit_or_iff p src using True inside len by auto
    next
      case False
      then show ?thesis
        unfolding step ih bit_or_iff p using True by auto
    qed
  next
    case False
    then have below: "t < 64 - (W + w)" by simp
    have n: "63 - W - t = w + (63 - (W + w) - t)"
      using below by linarith
    have src: "sources (r # rs) ! (63 - W - t) = sources rs ! (63 - (W + w) - t)"
      unfolding sources_Cons n using lw by (simp add: nth_append)
    have len: "63 - W - t < length (sources (r # rs)) \<longleftrightarrow> 63 - (W + w) - t < length (sources rs)"
      unfolding sources_Cons n using lw by simp
    show ?thesis
      unfolding step ih bit_or_iff p src len using below False by auto
  qed
qed


lemma bit_reverse_loop:
  "list_all (\<lambda>r. fst r < snd r \<and> snd r \<le> 64) rs \<Longrightarrow>
   W + sum_list (widths_of rs) \<le> 64 \<Longrightarrow>
   bit (reverse_loop (layout_reverse_masks W rs) (layout_offsets W rs) h res) b \<longleftrightarrow>
     bit res b \<or> (\<exists>n. n < length (sources rs) \<and> sources rs ! n = b \<and> bit h (63 - W - n))"
proof (induction rs arbitrary: W res)
  case Nil
  then show ?case by (simp add: sources_def)
next
  case (Cons r rs)
  define w where "w = snd r - fst r"
  define off where "off = 64 - int (W + (snd r - fst r)) - int (fst r)"
  define piece where "piece = shift_back off (h AND shift_by off (range_mask r))"
  from Cons.prems have r: "fst r < snd r" "snd r \<le> 64" "W + (snd r - fst r) \<le> 64"
    and rs: "list_all (\<lambda>r. fst r < snd r \<and> snd r \<le> 64) rs"
    and sum: "(W + w) + sum_list (widths_of rs) \<le> 64"
    by (simp_all add: widths_of_def w_def)
  have p: "bit piece b \<longleftrightarrow> fst r \<le> b \<and> b < snd r \<and> bit h (b + 64 - W - snd r)"
    unfolding piece_def off_def by (rule bit_reverse_piece [OF r])
  have ih: "bit (reverse_loop (layout_reverse_masks (W + w) rs) (layout_offsets (W + w) rs) h
        (res OR piece)) b \<longleftrightarrow>
      bit (res OR piece) b \<or>
      (\<exists>n. n < length (sources rs) \<and> sources rs ! n = b \<and> bit h (63 - (W + w) - n))"
    using rs sum by (rule Cons.IH)
  have step: "reverse_loop (layout_reverse_masks W (r # rs)) (layout_offsets W (r # rs)) h res =
      reverse_loop (layout_reverse_masks (W + w) rs) (layout_offsets (W + w) rs) h (res OR piece)"
    by (simp add: piece_def off_def w_def)
  have lw: "length (rev (positions r)) = w"
    by (simp add: positions_def w_def)
  have first: "(\<exists>n. n < w \<and> rev (positions r) ! n = b \<and> bit h (63 - W - n)) \<longleftrightarrow>
      fst r \<le> b \<and> b < snd r \<and> bit h (b + 64 - W - snd r)" (is "?L \<longleftrightarrow> ?R")
  proof
    assume ?L
    then obtain n where n: "n < w" "rev (positions r) ! n = b" "bit h (63 - W - n)"
      by blast
    from n(1,2) have b: "b = snd r - 1 - n"
      using rev_positions_nth [of n r] by (simp add: w_def)
    have "63 - W - n = b + 64 - W - snd r"
      using b n(1) r by (simp add: w_def; linarith)
    with n(3) b n(1) show ?R
      by (simp add: w_def; linarith)
  next
    assume R: ?R
    define n where "n = snd r - 1 - b"
    have "n < w"
      unfolding n_def w_def using R r by linarith
    moreover have "snd r - 1 - n = b"
      unfolding n_def using R r by linarith
    moreover have "63 - W - n = b + 64 - W - snd r"
      unfolding n_def using R r by linarith
    ultimately show ?L
      using R rev_positions_nth [of n r] by (auto simp add: w_def)
  qed
  have split: "(\<exists>n. n < length (sources (r # rs)) \<and> sources (r # rs) ! n = b \<and> bit h (63 - W - n)) \<longleftrightarrow>
      (\<exists>n. n < w \<and> rev (positions r) ! n = b \<and> bit h (63 - W - n)) \<or>
      (\<exists>n. n < length (sources rs) \<and> sources rs ! n = b \<and> bit h (63 - (W + w) - n))"
    (is "?A \<longleftrightarrow> ?B \<or> ?C")
  proof
    assume ?A
    then obtain n where n: "n < length (sources (r # rs))" "sources (r # rs) ! n = b"
        "bit h (63 - W - n)"
      by blast
    show "?B \<or> ?C"
    proof (cases "n < w")
      case True
      with n lw have "rev (positions r) ! n = b"
        by (simp add: sources_Cons nth_append)
      with True n(3) show ?thesis by blast
    next
      case False
      define n' where "n' = n - w"
      have "n = w + n'" using False by (simp add: n'_def)
      with n lw have "n' < length (sources rs)" "sources rs ! n' = b"
          "bit h (63 - (W + w) - n')"
        by (simp_all add: sources_Cons nth_append diff_diff_eq add.assoc)
      then show ?thesis by blast
    qed
  next
    assume "?B \<or> ?C"
    then show ?A
    proof
      assume ?B
      then obtain n where "n < w" "rev (positions r) ! n = b" "bit h (63 - W - n)"
        by blast
      with lw have "n < length (sources (r # rs)) \<and> sources (r # rs) ! n = b \<and> bit h (63 - W - n)"
        by (simp add: sources_Cons nth_append)
      then show ?A by blast
    next
      assume ?C
      then obtain n where "n < length (sources rs)" "sources rs ! n = b"
          "bit h (63 - (W + w) - n)"
        by blast
      with lw have "w + n < length (sources (r # rs)) \<and> sources (r # rs) ! (w + n) = b \<and>
          bit h (63 - W - (w + n))"
        by (simp add: sources_Cons nth_append diff_diff_eq add.assoc)
      then show ?A by blast
    qed
  qed
  show ?case
    unfolding step ih split first bit_or_iff p by blast
qed

lemma Permutation_ranges:
  assumes "list_all (\<lambda>r. fst r < snd r \<and> snd r \<le> 64) rs"
    and "sum_list (widths_of rs) \<le> 64"
  shows "Permutation d (map range_mask rs) = Inr (permutation_of d rs)"
proof -
  have m: "mask_loop (map range_mask rs) 0 [] [] [] =
      Inr (widths_of rs, layout_offsets 0 rs, layout_reverse_masks 0 rs)"
    using mask_loop_layout [OF assms(1), of 0 "[]" "[]" "[]"] assms(2) by simp
  define w where "w = sum_list (take (length rs - d) (widths_of rs))"
  have "sum_list (take (length rs - d) (widths_of rs)) \<le> sum_list (widths_of rs)"
    using sum_list_append [of "take (length rs - d) (widths_of rs)" "drop (length rs - d) (widths_of rs)"]
    by simp
  then have w: "w \<le> 64"
    using assms(2) by (simp add: w_def)
  have wl: "width_loop d (widths_of rs) 0 0 = int w"
    using width_loop_sum [of 0 "widths_of rs" d 0] by (simp add: w_def widths_of_def)
  show ?thesis
    unfolding Permutation_def m sum.case prod.case Let_def wl search_mask_loops [OF w]
    by (simp add: permutation_of_def w_def)
qed

section \<open>Permutations of a layout\<close>

lemma mset_sources: "mset (sources rs) = mset (concat (map positions rs))"
  by (induction rs) (simp_all add: sources_def)

lemma layout_valid: "layout rs \<Longrightarrow> list_all (\<lambda>r. fst r < snd r \<and> snd r \<le> 64) rs"
  by (simp add: layout_def)

lemma layout_mset_sources: "layout rs \<Longrightarrow> mset (sources rs) = mset [0..<64]"
  by (simp add: layout_def mset_sources)

lemma layout_length_sources: "layout rs \<Longrightarrow> length (sources rs) = 64"
  using layout_mset_sources [THEN mset_eq_length] by simp

lemma layout_set_sources: "layout rs \<Longrightarrow> set (sources rs) = {0..<64}"
  using layout_mset_sources [THEN mset_eq_setD] by simp

lemma layout_distinct_sources: "layout rs \<Longrightarrow> distinct (sources rs)"
  using layout_mset_sources [THEN mset_eq_imp_distinct_iff] by simp

lemma layout_sum_widths: "layout rs \<Longrightarrow> sum_list (widths_of rs) = 64"
  using layout_length_sources by (simp add: length_sources)

lemma Permutation_layout: "layout rs \<Longrightarrow> Permutation d (map range_mask rs) = Inr (permutation_of d rs)"
  by (rule Permutation_ranges) (simp_all add: layout_valid layout_sum_widths)

lemma bit_apply_layout:
  assumes "layout rs"
  shows "bit (Permutation_apply (permutation_of d rs) h) t \<longleftrightarrow>
    t < 64 \<and> bit h (sources rs ! (63 - t))"
proof -
  have "bit (apply_loop (map range_mask rs) (layout_offsets 0 rs) h 0) t \<longleftrightarrow>
      bit (0 :: hash_t) t \<or> (t < 64 - 0 \<and> 63 - 0 - t < length (sources rs) \<and>
        bit h (sources rs ! (63 - 0 - t)))"
    by (rule bit_apply_loop) (use assms in \<open>simp_all add: layout_valid layout_sum_widths\<close>)
  then show ?thesis
    using layout_length_sources [OF assms]
    by (auto simp add: Permutation_apply_def permutation_of_def)
qed

lemma bit_reverse_layout:
  assumes "layout rs"
  shows "bit (Permutation_reverse (permutation_of d rs) h) b \<longleftrightarrow>
    (\<exists>n. n < 64 \<and> sources rs ! n = b \<and> bit h (63 - n))"
proof -
  have "bit (reverse_loop (layout_reverse_masks 0 rs) (layout_offsets 0 rs) h 0) b \<longleftrightarrow>
      bit (0 :: hash_t) b \<or>
      (\<exists>n. n < length (sources rs) \<and> sources rs ! n = b \<and> bit h (63 - 0 - n))"
    by (rule bit_reverse_loop) (use assms in \<open>simp_all add: layout_valid layout_sum_widths\<close>)
  then show ?thesis
    using layout_length_sources [OF assms]
    by (simp add: Permutation_reverse_def permutation_of_def)
qed

lemma reverse_apply_layout:
  assumes "layout rs"
  shows "Permutation_reverse (permutation_of d rs) (Permutation_apply (permutation_of d rs) h) = h"
proof (rule bit_eqI)
  fix b
  have "(\<exists>n. n < 64 \<and> sources rs ! n = b \<and> bit h (sources rs ! n)) \<longleftrightarrow> bit h b"
  proof
    assume "bit h b"
    then have "b \<in> set (sources rs)"
      using layout_set_sources [OF assms] by (auto dest: bit_imp_le_length)
    then obtain n where "n < length (sources rs)" "sources rs ! n = b"
      by (auto simp add: in_set_conv_nth)
    with \<open>bit h b\<close> show "\<exists>n. n < 64 \<and> sources rs ! n = b \<and> bit h (sources rs ! n)"
      using layout_length_sources [OF assms] by auto
  qed auto
  moreover have "n < 64 \<Longrightarrow> 63 - (63 - n) = n" for n :: nat
    by simp
  ultimately show "bit (Permutation_reverse (permutation_of d rs)
      (Permutation_apply (permutation_of d rs) h)) b \<longleftrightarrow> bit h b"
    unfolding bit_reverse_layout [OF assms] bit_apply_layout [OF assms] by auto
qed

lemma apply_reverse_layout:
  assumes "layout rs"
  shows "Permutation_apply (permutation_of d rs) (Permutation_reverse (permutation_of d rs) h) = h"
proof (rule bit_eqI)
  fix t
  have key: "(\<exists>n. n < 64 \<and> sources rs ! n = sources rs ! (63 - t) \<and> bit h (63 - n)) \<longleftrightarrow> bit h t"
    if "t < 64"
  proof
    assume "\<exists>n. n < 64 \<and> sources rs ! n = sources rs ! (63 - t) \<and> bit h (63 - n)"
    then obtain n where n: "n < 64" "sources rs ! n = sources rs ! (63 - t)" "bit h (63 - n)"
      by blast
    have "n = 63 - t"
      using n(1,2) that layout_distinct_sources [OF assms] layout_length_sources [OF assms]
      by (simp add: nth_eq_iff_index_eq)
    with n(3) that show "bit h t" by simp
  next
    assume "bit h t"
    with that show "\<exists>n. n < 64 \<and> sources rs ! n = sources rs ! (63 - t) \<and> bit h (63 - n)"
      by (intro exI [of _ "63 - t"]) simp
  qed
  show "bit (Permutation_apply (permutation_of d rs)
      (Permutation_reverse (permutation_of d rs) h)) t \<longleftrightarrow> bit h t"
  proof (cases "t < 64")
    case True
    then show ?thesis
      unfolding bit_reverse_layout [OF assms] bit_apply_layout [OF assms] key [OF True] by simp
  next
    case False
    then have "\<not> bit h t"
      by (auto dest: bit_imp_le_length)
    with False show ?thesis
      unfolding bit_apply_layout [OF assms] by simp
  qed
qed

lemma apply_xor_layout:
  assumes "layout rs"
  shows "Permutation_apply (permutation_of d rs) (x XOR y) =
    Permutation_apply (permutation_of d rs) x XOR Permutation_apply (permutation_of d rs) y"
  by (rule bit_eqI) (auto simp add: bit_xor_iff bit_apply_layout [OF assms])

lemma popcount_apply_layout:
  assumes "layout rs"
  shows "popcount (Permutation_apply (permutation_of d rs) h) = popcount h"
proof -
  define f where "f t = sources rs ! (63 - t)" for t
  define A where "A = {t. t < 64 \<and> bit h (f t)}"
  have inj: "inj_on f A"
  proof (rule inj_onI)
    fix s t assume "s \<in> A" "t \<in> A" "f s = f t"
    then have "63 - s = 63 - t"
      using layout_distinct_sources [OF assms] layout_length_sources [OF assms]
      by (simp add: f_def A_def nth_eq_iff_index_eq)
    with \<open>s \<in> A\<close> \<open>t \<in> A\<close> show "s = t"
      by (simp add: A_def; linarith)
  qed
  have img: "f ` A = {b. bit h b}"
  proof (intro set_eqI iffI)
    fix b assume "b \<in> f ` A"
    then show "b \<in> {b. bit h b}" by (auto simp add: A_def)
  next
    fix b assume "b \<in> {b. bit h b}"
    then have b: "bit h b" by simp
    then have "b \<in> set (sources rs)"
      using layout_set_sources [OF assms] by (auto dest: bit_imp_le_length)
    then obtain n where n: "n < 64" "sources rs ! n = b"
      using layout_length_sources [OF assms] by (auto simp add: in_set_conv_nth)
    then have "63 - n \<in> A" "f (63 - n) = b"
      using b by (simp_all add: A_def f_def)
    then show "b \<in> f ` A" by blast
  qed
  have "{t. bit (Permutation_apply (permutation_of d rs) h) t} = A"
    by (simp add: A_def f_def bit_apply_layout [OF assms])
  then have "popcount (Permutation_apply (permutation_of d rs) h) = card A"
    by (simp add: popcount_card)
  also have "\<dots> = card (f ` A)"
    using inj by (simp add: card_image)
  finally show ?thesis
    by (simp add: img popcount_card)
qed

section \<open>The blocks and the members of the family\<close>

lemma blocks_ranges: "blocks B = map range_mask (block_ranges B)"
  by (simp add: blocks_def block_ranges_def block_mask_range)

lemma block_range_valid:
  assumes "i < B" and "B \<le> 64"
  shows "fst (block_range B i) < snd (block_range B i) \<and> snd (block_range B i) \<le> 64"
proof -
  have "0 < B"
    using assms by simp
  then have "i * 64 div B + 1 = (i * 64 + B) div B"
    by (simp add: div_add_self2)
  also have "\<dots> \<le> (i + 1) * 64 div B"
    using assms by (intro div_le_mono) simp
  finally have "i * 64 div B < (i + 1) * 64 div B"
    by simp
  moreover have "(i + 1) * 64 div B \<le> B * 64 div B"
    using assms by (intro div_le_mono) simp
  then have "(i + 1) * 64 div B \<le> 64"
    using assms by simp
  ultimately show ?thesis
    by (simp add: block_range_def)
qed

lemma block_range_step: "snd (block_range B i) = fst (block_range B (i + 1))"
  by (simp add: block_range_def)

lemma concat_block_positions:
  "k \<le> B \<Longrightarrow> B \<le> 64 \<Longrightarrow>
   concat (map positions (map (block_range B) [0..<k])) = [0 ..< fst (block_range B k)]"
proof (induction k)
  case 0
  then show ?case by (simp add: block_range_def)
next
  case (Suc k)
  then have v: "fst (block_range B k) < snd (block_range B k)"
    using block_range_valid [of k B] by simp
  have "concat (map positions (map (block_range B) [0..<Suc k])) =
      concat (map positions (map (block_range B) [0..<k])) @ positions (block_range B k)"
    by simp
  also have "\<dots> =
      [0 ..< fst (block_range B k)] @ [fst (block_range B k) ..< snd (block_range B k)]"
    using Suc unfolding positions_def [of "block_range B k"] by simp
  also have "\<dots> = [0 ..< snd (block_range B k)]"
    using v by (metis le_add1 less_imp_le_nat upt_add_eq_append le_iff_add plus_nat.add_0)
  finally show ?case
    by (simp add: block_range_step)
qed

lemma layout_block_ranges:
  assumes "0 < B" and "B \<le> 64"
  shows "layout (block_ranges B)"
proof -
  have "list_all (\<lambda>r. fst r < snd r \<and> snd r \<le> 64) (block_ranges B)"
    using assms block_range_valid [of _ B] by (simp add: block_ranges_def list_all_iff)
  moreover have "concat (map positions (block_ranges B)) = [0..<64]"
    using concat_block_positions [of B B] assms by (simp add: block_ranges_def block_range_def)
  ultimately show ?thesis
    by (simp add: layout_def)
qed

lemma distinct_block_ranges:
  assumes "B \<le> 64"
  shows "distinct (block_ranges B)"
proof -
  have mono: "fst (block_range B i) < fst (block_range B j)" if "i < j" "j < B" for i j
  proof -
    have "fst (block_range B i) < snd (block_range B i)"
      using that assms block_range_valid [of i B] by simp
    also have "\<dots> = fst (block_range B (i + 1))"
      by (rule block_range_step)
    also have "\<dots> \<le> fst (block_range B j)"
      using that by (auto simp add: block_range_def intro!: div_le_mono)
    finally show ?thesis .
  qed
  have "inj_on (block_range B) {0..<B}"
  proof (rule inj_onI)
    fix i j assume "i \<in> {0..<B}" "j \<in> {0..<B}" "block_range B i = block_range B j"
    then show "i = j"
      using mono [of i j] mono [of j i] by (cases i j rule: linorder_cases) auto
  qed
  then show ?thesis
    by (simp add: block_ranges_def distinct_map)
qed

lemma range_mask_inj:
  assumes "fst r < snd r" "snd r \<le> 64" "fst q < snd q" "snd q \<le> 64"
    and "range_mask r = range_mask q"
  shows "r = q"
proof -
  have "(Inr (fst r) :: error + nat) = scan_low (range_mask r) 0"
    using assms(1,2) by (simp add: scan_low_range)
  also have "\<dots> = scan_low (range_mask q) 0"
    by (simp only: assms(5))
  also have "\<dots> = Inr (fst q)"
    using assms(3,4) by (simp add: scan_low_range)
  finally have f: "fst r = fst q"
    by simp
  have "snd r = scan_high (range_mask r) (fst r)"
    using assms(1,2) by (simp add: scan_high_range)
  also have "\<dots> = scan_high (range_mask q) (fst q)"
    by (simp only: assms(5) f)
  also have "\<dots> = snd q"
    using assms(3,4) by (simp add: scan_high_range)
  finally show ?thesis
    using f by (simp add: prod_eq_iff)
qed

lemma add_remaining_distinct:
  "distinct blks \<Longrightarrow> add_remaining blks c = c @ filter (\<lambda>b. b \<notin> set c) blks"
proof (induction blks arbitrary: c)
  case Nil
  then show ?case by (simp add: add_remaining_def)
next
  case (Cons b blks)
  have step: "add_remaining (b # blks) c = add_remaining blks (if b \<notin> set c then c @ [b] else c)"
    by (simp add: add_remaining_def)
  show ?case
  proof (cases "b \<in> set c")
    case True
    with Cons show ?thesis
      unfolding step by simp
  next
    case False
    have "filter (\<lambda>x. x \<notin> set (c @ [b])) blks = filter (\<lambda>x. x \<notin> set c) blks"
      using Cons.prems by (intro filter_cong) auto
    with False Cons show ?thesis
      unfolding step by simp
  qed
qed

lemma combinations_distinct:
  "distinct xs \<Longrightarrow> c \<in> set (combinations xs r) \<Longrightarrow> distinct c"
proof (induction xs r arbitrary: c rule: combinations.induct)
  case (1 xs)
  then show ?case by simp
next
  case (2 r)
  then show ?case by simp
next
  case (3 x xs r)
  from 3(4) consider t where "c = x # t" "t \<in> set (combinations xs r)"
    | "c \<in> set (combinations xs (Suc r))"
    by auto
  then show ?case
  proof cases
    case 1
    then have "set t \<subseteq> set xs"
      by (simp add: combinations_subset)
    with 1 3(1) [of t] 3(3) show ?thesis
      by auto
  next
    case 2
    with 3(2) [of c] 3(3) show ?thesis
      by simp
  qed
qed

lemma mset_concat_map_cong:
  "mset xs = mset ys \<Longrightarrow> mset (concat (map f xs)) = mset (concat (map f ys))"
proof -
  have "mset (concat (map f zs)) = sum_mset (image_mset (\<lambda>z. mset (f z)) (mset zs))" for zs
    by (induction zs) simp_all
  then show "mset xs = mset ys \<Longrightarrow> mset (concat (map f xs)) = mset (concat (map f ys))"
    by simp
qed

lemma mset_member_ranges:
  assumes "distinct xs" and "c \<in> set (combinations xs r)"
  shows "mset (c @ filter (\<lambda>x. x \<notin> set c) xs) = mset xs"
proof -
  have "distinct c" "set c \<subseteq> set xs"
    using assms by (auto simp add: combinations_distinct dest: combinations_subset)
  then have "mset c = mset (filter (\<lambda>x. x \<in> set c) xs)"
    using assms(1) by (intro set_eq_iff_mset_eq_distinct [THEN iffD1]) auto
  then show ?thesis
    by (simp add: union_commute)
qed

lemma layout_member_ranges:
  assumes "0 < B" and "B \<le> 64" and "c \<in> set (combinations (block_ranges B) r)"
  shows "layout (member_ranges B c)"
proof -
  have l: "layout (block_ranges B)"
    using assms by (simp add: layout_block_ranges)
  have m: "mset (member_ranges B c) = mset (block_ranges B)"
    unfolding member_ranges_def using assms by (intro mset_member_ranges distinct_block_ranges)
  have "set (member_ranges B c) = set (block_ranges B)"
    using m by (rule mset_eq_setD)
  then have "list_all (\<lambda>r. fst r < snd r \<and> snd r \<le> 64) (member_ranges B c)"
    using layout_valid [OF l] by (simp add: list_all_iff)
  moreover have "mset (concat (map positions (member_ranges B c))) = mset [0..<64]"
    using mset_concat_map_cong [OF m, of positions] l by (simp add: layout_def)
  ultimately show ?thesis
    by (simp add: layout_def)
qed

section \<open>The family built by create\<close>

lemma block_ranges_valid:
  "B \<le> 64 \<Longrightarrow> r \<in> set (block_ranges B) \<Longrightarrow> fst r < snd r \<and> snd r \<le> 64"
  using block_range_valid [of _ B] by (auto simp add: block_ranges_def)

lemma inj_on_range_mask_blocks: "B \<le> 64 \<Longrightarrow> inj_on range_mask (set (block_ranges B))"
  by (rule inj_onI) (metis block_ranges_valid range_mask_inj)

lemma distinct_blocks: "B \<le> 64 \<Longrightarrow> distinct (blocks B)"
  by (simp add: blocks_ranges distinct_map distinct_block_ranges inj_on_range_mask_blocks)

lemma length_blocks: "length (blocks B) = B"
  by (simp add: blocks_def)

lemma add_remaining_blocks:
  assumes "B \<le> 64" and "cr \<in> set (combinations (block_ranges B) k)"
  shows "add_remaining (blocks B) (map range_mask cr) = map range_mask (member_ranges B cr)"
proof -
  have sub: "set cr \<subseteq> set (block_ranges B)"
    using assms(2) by (rule combinations_subset)
  have "filter (\<lambda>b. b \<notin> set (map range_mask cr)) (map range_mask (block_ranges B)) =
      map range_mask (filter (\<lambda>r. range_mask r \<notin> range_mask ` set cr) (block_ranges B))"
    by (simp add: filter_map comp_def)
  also have "filter (\<lambda>r. range_mask r \<notin> range_mask ` set cr) (block_ranges B) =
      filter (\<lambda>r. r \<notin> set cr) (block_ranges B)"
  proof (rule filter_cong [OF refl])
    fix r assume "r \<in> set (block_ranges B)"
    then show "(range_mask r \<notin> range_mask ` set cr) = (r \<notin> set cr)"
      using inj_on_range_mask_blocks [OF assms(1)] sub
      by (auto simp add: inj_on_def)
  qed
  finally show ?thesis
    using add_remaining_distinct [OF distinct_blocks [OF assms(1)], of "map range_mask cr"]
    by (simp add: member_ranges_def blocks_ranges)
qed

lemma build_loop_map:
  "(\<And>c. c \<in> set cs \<Longrightarrow> Permutation d (add_remaining blks (h c)) = Inr (g c)) \<Longrightarrow>
   build_loop d blks (map h cs) acc = Inr (acc @ map g cs)"
  by (induction cs arbitrary: acc) simp_all

lemma Permutation_create_family:
  assumes "d < B" and "B \<le> 64"
  shows "Permutation_create B d =
    Some (Inr (map (\<lambda>cr. permutation_of d (member_ranges B cr))
      (combinations (block_ranges B) (B - d))))"
proof -
  have B: "0 < B" using assms by simp
  have ch: "Permutation_choose (blocks B) (B - d) =
      Some (Inr (map (map range_mask) (combinations (block_ranges B) (B - d))))"
    using Permutation_choose_combinations [of "B - d" "blocks B"]
    by (simp add: length_blocks) (simp add: blocks_ranges map_combinations)
  have bl: "build_loop d (blocks B)
        (map (map range_mask) (combinations (block_ranges B) (B - d))) [] =
      Inr ([] @ map (\<lambda>cr. permutation_of d (member_ranges B cr))
        (combinations (block_ranges B) (B - d)))"
  proof (rule build_loop_map)
    fix c assume c: "c \<in> set (combinations (block_ranges B) (B - d))"
    show "Permutation d (add_remaining (blocks B) (map range_mask c)) =
        Inr (permutation_of d (member_ranges B c))"
      unfolding add_remaining_blocks [OF assms(2) c]
      using layout_member_ranges [OF B assms(2) c] by (rule Permutation_layout)
  qed
  show ?thesis
    using assms by (simp add: Permutation_create_def Let_def BITS_def ch bl)
qed

lemma Permutation_create_error:
  "Permutation_create B d = Some (Inl InvalidArgument) \<longleftrightarrow> B \<le> d \<or> 64 < B"
proof (cases "B \<le> d \<or> 64 < B")
  case True
  then show ?thesis
    by (auto simp add: Permutation_create_def BITS_def)
next
  case False
  then show ?thesis
    using Permutation_create_family [of d B] by simp
qed

section \<open>Properties of the members of the family\<close>

lemma family_member:
  assumes "d < B" and "B \<le> 64"
    and "Permutation_create B d = Some (Inr ps)" and "p \<in> set ps"
  shows "\<exists>cr. cr \<in> set (combinations (block_ranges B) (B - d)) \<and>
    p = permutation_of d (member_ranges B cr) \<and> layout (member_ranges B cr)"
proof -
  from assms(3) have "ps = map (\<lambda>cr. permutation_of d (member_ranges B cr))
      (combinations (block_ranges B) (B - d))"
    unfolding Permutation_create_family [OF assms(1,2)] by simp
  with assms(4) obtain cr where "cr \<in> set (combinations (block_ranges B) (B - d))"
    and "p = permutation_of d (member_ranges B cr)"
    by auto
  moreover have "layout (member_ranges B cr)"
    using assms(1,2) \<open>cr \<in> set _\<close> by (intro layout_member_ranges) simp_all
  ultimately show ?thesis
    by blast
qed

lemma family_exists:
  assumes "d < B" and "B \<le> 64"
  shows "\<exists>ps. Permutation_create B d = Some (Inr ps)"
  by (simp add: Permutation_create_family [OF assms])


lemma search_mask_layout:
  assumes "layout rs"
  shows "Permutation_search_mask (permutation_of d rs) =
      prefix_mask (sum_list (map popcount (take (length rs - d) (map range_mask rs))))"
    and "sum_list (map popcount (take (length rs - d) (map range_mask rs))) \<le> 64"
proof -
  have "map popcount (map range_mask rs) = widths_of rs"
    using layout_valid [OF assms]
    by (auto simp add: widths_of_def list_all_iff popcount_range_mask)
  then have eq: "map popcount (take (length rs - d) (map range_mask rs)) =
      take (length rs - d) (widths_of rs)"
    by (simp add: take_map [symmetric])
  show "Permutation_search_mask (permutation_of d rs) =
      prefix_mask (sum_list (map popcount (take (length rs - d) (map range_mask rs))))"
    unfolding eq by (simp add: Permutation_search_mask_def permutation_of_def)
  have "sum_list (take (length rs - d) (widths_of rs)) \<le> sum_list (widths_of rs)"
    using sum_list_append [of "take (length rs - d) (widths_of rs)" "drop (length rs - d) (widths_of rs)"]
    by simp
  then show "sum_list (map popcount (take (length rs - d) (map range_mask rs))) \<le> 64"
    unfolding eq using layout_sum_widths [OF assms] by simp
qed

lemma length_member_ranges:
  assumes "0 < B" "B \<le> 64" "cr \<in> set (combinations (block_ranges B) k)"
  shows "length (member_ranges B cr) = B"
proof -
  have "mset (member_ranges B cr) = mset (block_ranges B)"
    unfolding member_ranges_def using assms by (intro mset_member_ranges distinct_block_ranges)
  then have "length (member_ranges B cr) = length (block_ranges B)"
    by (rule mset_eq_length)
  then show ?thesis
    by (simp add: block_ranges_def)
qed

text \<open>
  Claim C3. For every \<open>(B, d)\<close> with \<open>0 < d < B \<le> 64\<close>, \<open>create\<close> returns a family, and for
  every permutation \<open>p\<close> of it and every hash \<open>h\<close>, \<open>reverse p (apply p h) = h\<close> and
  \<open>apply p (reverse p h) = h\<close>.
\<close>

theorem permutation_roundtrip:
  assumes "0 < d" and "d < B" and "B \<le> 64"
  shows "\<exists>ps. Permutation_create B d = Some (Inr ps) \<and>
    (\<forall>p \<in> set ps. \<forall>h.
       Permutation_reverse p (Permutation_apply p h) = h \<and>
       Permutation_apply p (Permutation_reverse p h) = h)"
proof -
  from family_exists [OF assms(2,3)] obtain ps where ps: "Permutation_create B d = Some (Inr ps)"
    by blast
  have "Permutation_reverse p (Permutation_apply p h) = h \<and>
      Permutation_apply p (Permutation_reverse p h) = h" if "p \<in> set ps" for p h
  proof -
    from family_member [OF assms(2,3) ps that] obtain cr
      where "p = permutation_of d (member_ranges B cr)" and "layout (member_ranges B cr)"
      by blast
    then show ?thesis
      by (simp add: reverse_apply_layout apply_reverse_layout)
  qed
  with ps show ?thesis
    by blast
qed

theorem permutation_roundtrip_witness:
  "\<exists>ps. Permutation_create 2 1 = Some (Inr ps) \<and>
    (\<forall>p \<in> set ps. \<forall>h.
       Permutation_reverse p (Permutation_apply p h) = h \<and>
       Permutation_apply p (Permutation_reverse p h) = h)"
  by (rule permutation_roundtrip) simp_all

text \<open>
  Claim C10. For every \<open>(B, d)\<close> with \<open>0 < d < B \<le> 64\<close>, every permutation \<open>p\<close> of the
  family and all hashes \<open>x\<close> and \<open>y\<close>: \<open>apply p (x XOR y) = apply p x XOR apply p y\<close>, and
  \<open>num_differing_bits (apply p x) (apply p y) = num_differing_bits x y\<close>.
\<close>

theorem apply_xor_distance:
  assumes "0 < d" and "d < B" and "B \<le> 64"
  shows "\<exists>ps. Permutation_create B d = Some (Inr ps) \<and>
    (\<forall>p \<in> set ps. \<forall>x y.
       Permutation_apply p (x XOR y) = Permutation_apply p x XOR Permutation_apply p y \<and>
       num_differing_bits (Permutation_apply p x) (Permutation_apply p y) =
         num_differing_bits x y)"
proof -
  from family_exists [OF assms(2,3)] obtain ps where ps: "Permutation_create B d = Some (Inr ps)"
    by blast
  have "Permutation_apply p (x XOR y) = Permutation_apply p x XOR Permutation_apply p y \<and>
       num_differing_bits (Permutation_apply p x) (Permutation_apply p y) =
         num_differing_bits x y" if "p \<in> set ps" for p x y
  proof -
    from family_member [OF assms(2,3) ps that] obtain cr
      where p: "p = permutation_of d (member_ranges B cr)" and l: "layout (member_ranges B cr)"
      by blast
    have x: "Permutation_apply p (x XOR y) = Permutation_apply p x XOR Permutation_apply p y"
      unfolding p by (rule apply_xor_layout [OF l])
    have "num_differing_bits (Permutation_apply p x) (Permutation_apply p y) =
        popcount (Permutation_apply p (x XOR y))"
      by (simp add: num_differing_bits_popcount x)
    also have "\<dots> = popcount (x XOR y)"
      unfolding p by (rule popcount_apply_layout [OF l])
    finally show ?thesis
      using x by (simp add: num_differing_bits_popcount)
  qed
  with ps show ?thesis
    by blast
qed

theorem apply_xor_distance_witness:
  "\<exists>ps. Permutation_create 2 1 = Some (Inr ps) \<and>
    (\<forall>p \<in> set ps. \<forall>x y.
       Permutation_apply p (x XOR y) = Permutation_apply p x XOR Permutation_apply p y \<and>
       num_differing_bits (Permutation_apply p x) (Permutation_apply p y) =
         num_differing_bits x y)"
  by (rule apply_xor_distance) simp_all



section \<open>The size and the structure of the family\<close>

lemma length_combinations: "length (combinations xs r) = length xs choose r"
  by (induction xs r rule: combinations.induct) simp_all

lemma set_combinations_sorted:
  fixes xs :: "'a :: linorder list"
  shows "sorted_wrt (<) xs \<Longrightarrow>
    set (combinations xs r) = {ys. sorted_wrt (<) ys \<and> set ys \<subseteq> set xs \<and> length ys = r}"
proof (induction xs r rule: combinations.induct)
  case (1 xs)
  then show ?case by auto
next
  case (2 r)
  then show ?case by auto
next
  case (3 x xs r)
  from 3(3) have above: "\<And>y. y \<in> set xs \<Longrightarrow> x < y" and sorted: "sorted_wrt (<) xs"
    by simp_all
  have ih1: "set (combinations xs r) =
      {ys. sorted_wrt (<) ys \<and> set ys \<subseteq> set xs \<and> length ys = r}"
    using 3(1) sorted by simp
  have ih2: "set (combinations xs (Suc r)) =
      {ys. sorted_wrt (<) ys \<and> set ys \<subseteq> set xs \<and> length ys = Suc r}"
    using 3(2) sorted by simp
  show ?case
  proof (intro set_eqI iffI)
    fix ys assume "ys \<in> set (combinations (x # xs) (Suc r))"
    then consider t where "ys = x # t" "t \<in> set (combinations xs r)"
      | "ys \<in> set (combinations xs (Suc r))"
      by auto
    then show "ys \<in> {ys. sorted_wrt (<) ys \<and> set ys \<subseteq> set (x # xs) \<and> length ys = Suc r}"
    proof cases
      case 1
      then show ?thesis
        unfolding ih1 using above by auto
    next
      case 2
      then show ?thesis
        unfolding ih2 by auto
    qed
  next
    fix ys assume "ys \<in> {ys. sorted_wrt (<) ys \<and> set ys \<subseteq> set (x # xs) \<and> length ys = Suc r}"
    then have ys: "sorted_wrt (<) ys" "set ys \<subseteq> insert x (set xs)" "length ys = Suc r"
      by simp_all
    then obtain y t where yt: "ys = y # t"
      by (cases ys) auto
    with ys have t: "sorted_wrt (<) t" "\<And>z. z \<in> set t \<Longrightarrow> y < z" "length t = r"
      by simp_all
    show "ys \<in> set (combinations (x # xs) (Suc r))"
    proof (cases "y = x")
      case True
      have "set t \<subseteq> set xs"
        using ys(2) t(2) True yt by auto
      then have "t \<in> set (combinations xs r)"
        unfolding ih1 using t by simp
      then show ?thesis
        using True yt by simp
    next
      case False
      then have y: "y \<in> set xs"
        using ys(2) yt by simp
      have "z \<in> set xs" if "z \<in> set t" for z
      proof -
        have "x < z"
          using above [OF y] t(2) [OF that] by simp
        then show ?thesis
          using ys(2) yt that by auto
      qed
      then have "ys \<in> set (combinations xs (Suc r))"
        unfolding ih2 using ys y yt by auto
      then show ?thesis
        by simp
    qed
  qed
qed

lemma lex_sorted_combinations:
  fixes xs :: "'a :: linorder list"
  shows "sorted_wrt (<) xs \<Longrightarrow>
    sorted_wrt (\<lambda>a b. (a, b) \<in> lexord {(i, j). i < j}) (combinations xs r)"
proof (induction xs r rule: combinations.induct)
  case (1 xs)
  then show ?case by simp
next
  case (2 r)
  then show ?case by simp
next
  case (3 x xs r)
  from 3(3) have above: "\<And>y. y \<in> set xs \<Longrightarrow> x < y" and sorted: "sorted_wrt (<) xs"
    by simp_all
  have a: "sorted_wrt (\<lambda>a b. (a, b) \<in> lexord {(i, j). i < j}) (map ((#) x) (combinations xs r))"
    using 3(1) [OF sorted] by (simp add: sorted_wrt_map)
  have b: "sorted_wrt (\<lambda>a b. (a, b) \<in> lexord {(i, j). i < j}) (combinations xs (Suc r))"
    using 3(2) [OF sorted] .
  have c: "(x # t, ys) \<in> lexord {(i, j). i < j}"
    if "ys \<in> set (combinations xs (Suc r))" for t ys
  proof -
    from that have "length ys = Suc r" "set ys \<subseteq> set xs"
      by (simp_all add: combinations_length combinations_subset)
    then obtain y u where "ys = y # u" "y \<in> set xs"
      by (cases ys) auto
    then show ?thesis
      using above by simp
  qed
  show ?case
    using a b c by (auto simp add: sorted_wrt_append)
qed

lemma combinations_by_index:
  "combinations xs r = map (map (\<lambda>i. xs ! i)) (combinations [0..<length xs] r)"
  by (simp add: map_combinations map_nth)

lemma rest_by_index:
  assumes "distinct xs" and "set idx \<subseteq> {..<length xs}"
  shows "filter (\<lambda>x. x \<notin> set (map (\<lambda>i. xs ! i) idx)) xs =
    map (\<lambda>i. xs ! i) (filter (\<lambda>i. i \<notin> set idx) [0..<length xs])"
proof -
  have "filter (\<lambda>x. x \<notin> set (map (\<lambda>i. xs ! i) idx)) (map (\<lambda>i. xs ! i) [0..<length xs]) =
      map (\<lambda>i. xs ! i) (filter (\<lambda>i. xs ! i \<notin> (\<lambda>i. xs ! i) ` set idx) [0..<length xs])"
    by (simp add: filter_map comp_def)
  also have "filter (\<lambda>i. xs ! i \<notin> (\<lambda>i. xs ! i) ` set idx) [0..<length xs] =
      filter (\<lambda>i. i \<notin> set idx) [0..<length xs]"
  proof (rule filter_cong [OF refl])
    fix i assume "i \<in> set [0..<length xs]"
    then show "(xs ! i \<notin> (\<lambda>i. xs ! i) ` set idx) = (i \<notin> set idx)"
      using assms by (auto simp add: nth_eq_iff_index_eq)
  qed
  finally show ?thesis
    by (simp add: map_nth)
qed

text \<open>
  Claim C6. For every \<open>(B, d)\<close> with \<open>0 < d < B \<le> 64\<close>, \<open>create\<close> returns \<open>C(B, d)\<close>
  permutations, one for each index list of \<open>combinations [0..<B] (B - d)\<close> and in that
  order. These index lists are exactly the strictly increasing lists of \<open>B - d\<close> block
  indices, that is the subsets of size \<open>B - d\<close>, in strictly increasing lexicographic
  order. The mask list of the permutation for an index list is the blocks at these
  indices, followed by the blocks at the other indices in increasing order; the blocks
  are pairwise different.
\<close>

theorem family_size_and_structure:
  assumes "0 < d" and "d < B" and "B \<le> 64"
  shows "\<exists>ps. Permutation_create B d = Some (Inr ps) \<and>
    length ps = B choose d \<and>
    map forward_masks ps =
      map (\<lambda>idx. map (\<lambda>i. blocks B ! i) idx @
                 map (\<lambda>i. blocks B ! i) (filter (\<lambda>i. i \<notin> set idx) [0..<B]))
        (combinations [0..<B] (B - d)) \<and>
    set (combinations [0..<B] (B - d)) =
      {idx. sorted_wrt (<) idx \<and> set idx \<subseteq> {..<B} \<and> length idx = B - d} \<and>
    sorted_wrt (\<lambda>a b. (a, b) \<in> lexord {(i, j). i < j}) (combinations [0..<B] (B - d)) \<and>
    distinct (blocks B)"
proof -
  define ps where "ps = map (\<lambda>cr. permutation_of d (member_ranges B cr))
      (combinations (block_ranges B) (B - d))"
  have ps: "Permutation_create B d = Some (Inr ps)"
    unfolding ps_def by (rule Permutation_create_family [OF assms(2,3)])
  have len: "length ps = B choose d"
    using assms binomial_symmetric [of d B]
    by (simp add: ps_def length_combinations block_ranges_def)
  have lb: "length (block_ranges B) = B"
    by (simp add: block_ranges_def)
  have dist: "distinct (block_ranges B)"
    using assms by (simp add: distinct_block_ranges)
  have member: "forward_masks (permutation_of d (member_ranges B (map (\<lambda>i. block_ranges B ! i) idx))) =
      map (\<lambda>i. blocks B ! i) idx @
      map (\<lambda>i. blocks B ! i) (filter (\<lambda>i. i \<notin> set idx) [0..<B])"
    if "idx \<in> set (combinations [0..<B] (B - d))" for idx
  proof -
    have sub: "set idx \<subseteq> {..<B}"
      using combinations_subset [OF that] by auto
    have bl: "map (\<lambda>i. blocks B ! i) js = map range_mask (map (\<lambda>i. block_ranges B ! i) js)"
      if "set js \<subseteq> {..<B}" for js
      using that lb by (auto simp add: blocks_ranges)
    have "member_ranges B (map (\<lambda>i. block_ranges B ! i) idx) =
        map (\<lambda>i. block_ranges B ! i) idx @
        map (\<lambda>i. block_ranges B ! i) (filter (\<lambda>i. i \<notin> set idx) [0..<B])"
      unfolding member_ranges_def using rest_by_index [OF dist, of idx] sub lb by simp
    moreover have "set (filter (\<lambda>i. i \<notin> set idx) [0..<B]) \<subseteq> {..<B}"
      by auto
    ultimately show ?thesis
      unfolding bl [OF sub] bl [OF \<open>set (filter (\<lambda>i. i \<notin> set idx) [0..<B]) \<subseteq> {..<B}\<close>]
      by (simp add: permutation_of_def)
  qed
  have "map forward_masks ps =
      map (\<lambda>idx. forward_masks (permutation_of d (member_ranges B (map (\<lambda>i. block_ranges B ! i) idx))))
        (combinations [0..<B] (B - d))"
    unfolding ps_def combinations_by_index [of "block_ranges B"] lb by (simp add: comp_def)
  also have "\<dots> = map (\<lambda>idx. map (\<lambda>i. blocks B ! i) idx @
                 map (\<lambda>i. blocks B ! i) (filter (\<lambda>i. i \<notin> set idx) [0..<B]))
        (combinations [0..<B] (B - d))"
    using member by (intro map_cong refl) 
  finally have masks: "map forward_masks ps =
      map (\<lambda>idx. map (\<lambda>i. blocks B ! i) idx @
                 map (\<lambda>i. blocks B ! i) (filter (\<lambda>i. i \<notin> set idx) [0..<B]))
        (combinations [0..<B] (B - d))" .
  have up: "sorted_wrt (<) [0..<B]"
    by (simp add: sorted_wrt_upt)
  have sets: "set (combinations [0..<B] (B - d)) =
      {idx. sorted_wrt (<) idx \<and> set idx \<subseteq> {..<B} \<and> length idx = B - d}"
    unfolding set_combinations_sorted [OF up] by auto
  have lex: "sorted_wrt (\<lambda>a b. (a, b) \<in> lexord {(i, j). i < j}) (combinations [0..<B] (B - d))"
    by (rule lex_sorted_combinations [OF up])
  have "distinct (blocks B)"
    using assms by (simp add: distinct_blocks)
  with ps len masks sets lex show ?thesis
    by blast
qed

theorem family_size_and_structure_witness:
  "\<exists>ps. Permutation_create 4 1 = Some (Inr ps) \<and>
    length ps = 4 choose 1 \<and>
    map forward_masks ps =
      map (\<lambda>idx. map (\<lambda>i. blocks 4 ! i) idx @
                 map (\<lambda>i. blocks 4 ! i) (filter (\<lambda>i. i \<notin> set idx) [0..<4]))
        (combinations [0..<4] (4 - 1)) \<and>
    set (combinations [0..<4] (4 - 1)) =
      {idx. sorted_wrt (<) idx \<and> set idx \<subseteq> {..<4} \<and> length idx = 4 - 1} \<and>
    sorted_wrt (\<lambda>a b. (a, b) \<in> lexord {(i, j). i < j}) (combinations [0..<4] (4 - 1)) \<and>
    distinct (blocks 4)"
  by (rule family_size_and_structure) simp_all

section \<open>The order in which the constructor places the blocks\<close>

lemma apply_single_bit_layout:
  assumes "layout rs" and "n < 64"
  shows "Permutation_apply (permutation_of d rs) (push_bit (sources rs ! n) 1) = push_bit (63 - n) 1"
proof (rule bit_eqI)
  fix t
  have src: "sources rs ! m < 64" if "m < 64" for m
    using layout_set_sources [OF assms(1)] layout_length_sources [OF assms(1)] that
      nth_mem [of m "sources rs"] by auto
  have "sources rs ! (63 - t) = sources rs ! n \<longleftrightarrow> 63 - t = n" if "t < 64"
    using layout_distinct_sources [OF assms(1)] layout_length_sources [OF assms(1)] assms(2) that
    by (simp add: nth_eq_iff_index_eq)
  then show "bit (Permutation_apply (permutation_of d rs) (push_bit (sources rs ! n) 1)) t \<longleftrightarrow>
      bit (push_bit (63 - n) 1 :: hash_t) t"
    unfolding bit_apply_layout [OF assms(1)] using assms(2) src [of n]
    by (auto simp add: bit_exp_iff)
qed

lemma sources_append: "sources (xs @ ys) = sources xs @ sources ys"
  by (simp add: sources_def)

lemma sources_block:
  assumes "k < length rs" and "n < snd (rs ! k) - fst (rs ! k)"
  shows "sources rs ! (sum_list (take k (widths_of rs)) + n) = snd (rs ! k) - 1 - n"
    and "sum_list (take k (widths_of rs)) + n < sum_list (take (Suc k) (widths_of rs))"
proof -
  have split: "rs = take k rs @ rs ! k # drop (Suc k) rs"
    using assms(1) by (rule id_take_nth_drop)
  have len: "length (sources (take k rs)) = sum_list (take k (widths_of rs))"
    by (simp add: length_sources widths_of_def take_map)
  have "sources rs = sources (take k rs) @ rev (positions (rs ! k)) @ sources (drop (Suc k) rs)"
    by (subst split) (simp add: sources_append sources_Cons)
  then have "sources rs ! (sum_list (take k (widths_of rs)) + n) =
      (rev (positions (rs ! k)) @ sources (drop (Suc k) rs)) ! n"
    using len by (simp add: nth_append)
  also have "\<dots> = rev (positions (rs ! k)) ! n"
    using assms(2) by (simp add: nth_append positions_def)
  also have "\<dots> = snd (rs ! k) - 1 - n"
    using assms(2) by (rule rev_positions_nth)
  finally show "sources rs ! (sum_list (take k (widths_of rs)) + n) = snd (rs ! k) - 1 - n" .
  have "take (Suc k) (widths_of rs) = take k (widths_of rs) @ [snd (rs ! k) - fst (rs ! k)]"
    using assms(1) by (simp add: take_Suc_conv_app_nth widths_of_def)
  then show "sum_list (take k (widths_of rs)) + n < sum_list (take (Suc k) (widths_of rs))"
    using assms(2) by simp
qed

lemma take_sum_le: "sum_list (take k (ws :: nat list)) \<le> sum_list ws"
  using sum_list_append [of "take k ws" "drop k ws"] by simp

lemma apply_block_bit:
  assumes "layout rs" and "k < length rs" and "fst (rs ! k) \<le> b" and "b < snd (rs ! k)"
  shows "\<exists>n. sum_list (take k (widths_of rs)) \<le> n \<and>
    n < sum_list (take (Suc k) (widths_of rs)) \<and> n < 64 \<and>
    Permutation_apply (permutation_of d rs) (push_bit b 1) = push_bit (63 - n) 1"
proof -
  define n where "n = snd (rs ! k) - 1 - b"
  define m where "m = sum_list (take k (widths_of rs)) + n"
  have n: "n < snd (rs ! k) - fst (rs ! k)" "snd (rs ! k) - 1 - n = b"
    unfolding n_def using assms(3,4) by linarith+
  have src: "sources rs ! m = b" and up: "m < sum_list (take (Suc k) (widths_of rs))"
    unfolding m_def using sources_block [OF assms(2) n(1)] n(2) by simp_all
  have "sum_list (take (Suc k) (widths_of rs)) \<le> 64"
    using take_sum_le [of "Suc k" "widths_of rs"] layout_sum_widths [OF assms(1)] by simp
  with up have m: "m < 64"
    by simp
  have "Permutation_apply (permutation_of d rs) (push_bit b 1) = push_bit (63 - m) 1"
    using apply_single_bit_layout [OF assms(1) m, of d] src by simp
  with up m show ?thesis
    unfolding m_def by (intro exI [of _ "sum_list (take k (widths_of rs)) + n"]) simp
qed

lemma masks_of_blocks:
  assumes "0 < B" and "B \<le> 64" and "mset msks = mset (blocks B)"
  shows "\<exists>rs. msks = map range_mask rs \<and> layout rs"
proof -
  have "list_all2 (\<lambda>m r. m = range_mask r) (blocks B) (block_ranges B)"
    by (simp add: blocks_ranges list_all2_conv_all_nth)
  from list_all2_reorder_left_invariance [OF this assms(3)]
  obtain rs where rel: "list_all2 (\<lambda>m r. m = range_mask r) msks rs"
    and ms: "mset rs = mset (block_ranges B)"
    by blast
  have eq: "msks = map range_mask rs"
    using rel by (auto simp add: list_all2_conv_all_nth intro: nth_equalityI)
  have l: "layout (block_ranges B)"
    using assms by (simp add: layout_block_ranges)
  have "set rs = set (block_ranges B)"
    using ms by (rule mset_eq_setD)
  then have "list_all (\<lambda>r. fst r < snd r \<and> snd r \<le> 64) rs"
    using layout_valid [OF l] by (simp add: list_all_iff)
  moreover have "mset (concat (map positions rs)) = mset [0..<64]"
    using mset_concat_map_cong [OF ms, of positions] l by (simp add: layout_def)
  ultimately have "layout rs"
    by (simp add: layout_def)
  with eq show ?thesis
    by blast
qed

lemma placement_high_to_low:
  assumes "0 < B" and "B \<le> 64" and "mset msks = mset (blocks B)"
    and "Suc k < length msks" and "bit (msks ! k) b1" and "bit (msks ! Suc k) b2"
  shows "\<exists>p t1 t2. Permutation d msks = Inr p \<and>
    Permutation_apply p (push_bit b1 1) = push_bit t1 1 \<and>
    Permutation_apply p (push_bit b2 1) = push_bit t2 1 \<and> t2 < t1 \<and> t1 < 64"
proof -
  from masks_of_blocks [OF assms(1-3)] obtain rs
    where eq: "msks = map range_mask rs" and l: "layout rs"
    by blast
  have k: "k < length rs" "Suc k < length rs"
    using assms(4) by (simp_all add: eq)
  have b1: "fst (rs ! k) \<le> b1" "b1 < snd (rs ! k)"
    using assms(5) k by (simp_all add: eq bit_range_mask)
  have b2: "fst (rs ! Suc k) \<le> b2" "b2 < snd (rs ! Suc k)"
    using assms(6) k by (simp_all add: eq bit_range_mask)
  from apply_block_bit [OF l k(1) b1, of d] obtain n1
    where n1: "n1 < sum_list (take (Suc k) (widths_of rs))" "n1 < 64"
      "Permutation_apply (permutation_of d rs) (push_bit b1 1) = push_bit (63 - n1) 1"
    by blast
  from apply_block_bit [OF l k(2) b2, of d] obtain n2
    where n2: "sum_list (take (Suc k) (widths_of rs)) \<le> n2" "n2 < 64"
      "Permutation_apply (permutation_of d rs) (push_bit b2 1) = push_bit (63 - n2) 1"
    by blast
  have "Permutation d msks = Inr (permutation_of d rs)"
    unfolding eq by (rule Permutation_layout [OF l])
  moreover have "63 - n2 < 63 - n1" "63 - n1 < 64"
    using n1(1,2) n2(1,2) by linarith+
  ultimately show ?thesis
    using n1(3) n2(3) by blast
qed

text \<open>
  Claim C9, as amended. A permutation constructed from an ordered list of the \<open>B\<close> block
  masks places the blocks from the high end of the permuted word to the low end in list
  order: for two consecutive masks of the list, \<open>apply\<close> maps every bit of the earlier
  mask to a strictly higher position than every bit of the later mask.
\<close>

theorem block_placement_order:
  assumes "0 < B" and "B \<le> 64" and "mset msks = mset (blocks B)"
    and "Suc k < length msks" and "bit (msks ! k) b1" and "bit (msks ! Suc k) b2"
  shows "\<exists>p t1 t2. Permutation d msks = Inr p \<and>
    Permutation_apply p (push_bit b1 1) = push_bit t1 1 \<and>
    Permutation_apply p (push_bit b2 1) = push_bit t2 1 \<and> t2 < t1 \<and> t1 < 64"
  using assms by (rule placement_high_to_low)

theorem block_placement_order_witness:
  "\<exists>p t1 t2. Permutation 1 (blocks 2) = Inr p \<and>
    Permutation_apply p (push_bit 0 1) = push_bit t1 1 \<and>
    Permutation_apply p (push_bit 32 1) = push_bit t2 1 \<and> t2 < t1 \<and> t1 < 64"
proof (rule block_placement_order [where B = 2 and k = 0])
  show "bit (blocks 2 ! 0) 0"
    by (simp add: blocks_ranges block_ranges_def bit_range_mask block_range_def)
  have "[0..<2] = [0, 1]"
    by (simp add: upt_rec)
  then show "bit (blocks 2 ! Suc 0) 32"
    by (simp add: blocks_ranges block_ranges_def bit_range_mask block_range_def)
  show "Suc 0 < length (blocks 2)"
    by (simp add: length_blocks)
qed simp_all

text \<open>
  The claim as stated fails for the two blocks of \<open>B = 2\<close> in their natural order: bit 0
  of the first mask goes to position 32 and bit 32 of the second mask to position 0.
\<close>

theorem block_placement_order_counterexample:
  "blocks 2 = [0xFFFFFFFF, 0xFFFFFFFF00000000] \<and>
   Permutation 1 [0xFFFFFFFF, 0xFFFFFFFF00000000] =
     Inr \<lparr>forward_masks = [0xFFFFFFFF, 0xFFFFFFFF00000000],
       reverse_masks = [0xFFFFFFFF00000000, 0xFFFFFFFF], offsets = [32, - 32],
       search_mask_field = 0xFFFFFFFF00000000\<rparr> \<and>
   bit (0xFFFFFFFF :: hash_t) 0 \<and> bit (0xFFFFFFFF00000000 :: hash_t) 32 \<and>
   Permutation_apply \<lparr>forward_masks = [0xFFFFFFFF, 0xFFFFFFFF00000000],
       reverse_masks = [0xFFFFFFFF00000000, 0xFFFFFFFF], offsets = [32, - 32],
       search_mask_field = 0xFFFFFFFF00000000\<rparr> (push_bit 0 1) = push_bit 32 1 \<and>
   Permutation_apply \<lparr>forward_masks = [0xFFFFFFFF, 0xFFFFFFFF00000000],
       reverse_masks = [0xFFFFFFFF00000000, 0xFFFFFFFF], offsets = [32, - 32],
       search_mask_field = 0xFFFFFFFF00000000\<rparr> (push_bit 32 1) = push_bit 0 1 \<and>
   \<not> (32 :: nat) < 0"
proof -
  have a: "blocks 2 = [0xFFFFFFFF, 0xFFFFFFFF00000000]"
    by code_simp
  have b: "Permutation 1 [0xFFFFFFFF, 0xFFFFFFFF00000000] =
     Inr \<lparr>forward_masks = [0xFFFFFFFF, 0xFFFFFFFF00000000],
       reverse_masks = [0xFFFFFFFF00000000, 0xFFFFFFFF], offsets = [32, - 32],
       search_mask_field = 0xFFFFFFFF00000000\<rparr>"
    by code_simp
  have c: "bit (0xFFFFFFFF :: hash_t) 0" "bit (0xFFFFFFFF00000000 :: hash_t) 32"
    by code_simp+
  have d: "Permutation_apply \<lparr>forward_masks = [0xFFFFFFFF, 0xFFFFFFFF00000000],
       reverse_masks = [0xFFFFFFFF00000000, 0xFFFFFFFF], offsets = [32, - 32],
       search_mask_field = 0xFFFFFFFF00000000\<rparr> (push_bit 0 1) = push_bit 32 1"
    by code_simp
  have e: "Permutation_apply \<lparr>forward_masks = [0xFFFFFFFF, 0xFFFFFFFF00000000],
       reverse_masks = [0xFFFFFFFF00000000, 0xFFFFFFFF], offsets = [32, - 32],
       search_mask_field = 0xFFFFFFFF00000000\<rparr> (push_bit 32 1) = push_bit 0 1"
    by code_simp
  show ?thesis
    using a b c d e by blast
qed

section \<open>The loops over the runs of one permutation\<close>

lemma inner_loop_eq:
  "inner_loop p d a bs M =
     M \<union> (\<lambda>b. canonical p a b) ` {b \<in> set bs. num_differing_bits a b \<le> d}"
proof (induction bs arbitrary: M)
  case Nil
  then show ?case by simp
next
  case (Cons b bs)
  show ?case
    unfolding inner_loop.simps Cons.IH
    by (auto simp add: canonical_def Let_def)
qed

lemma outer_loop_eq:
  "outer_loop p d as M =
     M \<union> (\<lambda>ab. canonical p (fst ab) (snd ab)) `
       {ab \<in> ordered_pairs as. num_differing_bits (fst ab) (snd ab) \<le> d}"
proof (induction as arbitrary: M)
  case Nil
  then show ?case by simp
next
  case (Cons a as)
  have "{ab \<in> ordered_pairs (a # as). num_differing_bits (fst ab) (snd ab) \<le> d} =
      (\<lambda>b. (a, b)) ` {b \<in> set as. num_differing_bits a b \<le> d} \<union>
      {ab \<in> ordered_pairs as. num_differing_bits (fst ab) (snd ab) \<le> d}"
    by auto
  then show ?case
    unfolding outer_loop.simps Cons.IH inner_loop_eq
    by (simp add: image_Un image_image Un_assoc)
qed

lemma ordered_pairs_append:
  "ordered_pairs (xs @ ys) = ordered_pairs xs \<union> ordered_pairs ys \<union> set xs \<times> set ys"
  by (induction xs) auto

lemma ordered_pairs_subset: "ordered_pairs xs \<subseteq> set xs \<times> set xs"
  by (induction xs) auto

lemma ordered_pairs_total:
  "distinct xs \<Longrightarrow> a \<in> set xs \<Longrightarrow> b \<in> set xs \<Longrightarrow> a \<noteq> b \<Longrightarrow>
   (a, b) \<in> ordered_pairs xs \<or> (b, a) \<in> ordered_pairs xs"
  by (induction xs) auto

lemma run_loop_eq:
  "sorted (map (\<lambda>e. e AND msk) xs) \<Longrightarrow>
   run_loop p d msk xs M = M \<union> prefix_matches p d msk xs"
proof (induction p d msk xs M rule: run_loop.induct)
  case (1 p d msk M)
  then show ?case
    by (simp add: run_loop.simps prefix_matches_def)
next
  case (2 p d msk s rest M)
  define P where "P = (\<lambda>e. e AND msk = s AND msk)"
  define run where "run = takeWhile P (s # rest)"
  define after where "after = dropWhile P (s # rest)"
  have split: "s # rest = run @ after"
    by (simp add: run_def after_def)
  have step: "run_loop p d msk (s # rest) M = run_loop p d msk after (outer_loop p d run M)"
    by (simp add: run_loop.simps Let_def run_def after_def P_def)
  have sorted_after: "sorted (map (\<lambda>e. e AND msk) after)"
    using 2(2) unfolding split by (simp add: sorted_append)
  have ih: "run_loop p d msk after (outer_loop p d run M) =
      outer_loop p d run M \<union> prefix_matches p d msk after"
    using 2(1) [OF refl, of run after] sorted_after
    by (simp add: run_def after_def P_def)
  have run_key: "e AND msk = s AND msk" if "e \<in> set run" for e
    using that set_takeWhileD [of e P "s # rest"] by (simp add: run_def P_def)
  have after_key: "e AND msk \<noteq> s AND msk" if "e \<in> set after" for e
  proof (cases after)
    case Nil
    with that show ?thesis by simp
  next
    case (Cons f fs)
    have "\<not> P f"
      using hd_dropWhile [of P "s # rest"] Cons by (simp add: after_def)
    have "s \<in> set run"
      by (simp add: run_def P_def)
    then have "s AND msk \<le> f AND msk"
      using 2(2) unfolding split Cons by (auto simp add: sorted_append)
    with \<open>\<not> P f\<close> have lt: "s AND msk < f AND msk"
      by (simp add: P_def)
    have "f AND msk \<le> e AND msk"
      using that sorted_after unfolding Cons by auto
    with lt show ?thesis
      by simp
  qed
  have pairs: "{ab \<in> ordered_pairs (s # rest). fst ab AND msk = snd ab AND msk \<and>
        num_differing_bits (fst ab) (snd ab) \<le> d} =
      {ab \<in> ordered_pairs run. num_differing_bits (fst ab) (snd ab) \<le> d} \<union>
      {ab \<in> ordered_pairs after. fst ab AND msk = snd ab AND msk \<and>
        num_differing_bits (fst ab) (snd ab) \<le> d}" (is "?L = ?R")
  proof (intro set_eqI iffI)
    fix ab assume "ab \<in> ?L"
    then have m: "ab \<in> ordered_pairs run \<union> ordered_pairs after \<union> set run \<times> set after"
      and k: "fst ab AND msk = snd ab AND msk"
      and n: "num_differing_bits (fst ab) (snd ab) \<le> d"
      unfolding split ordered_pairs_append by simp_all
    have "ab \<notin> set run \<times> set after"
    proof
      assume "ab \<in> set run \<times> set after"
      then have "fst ab \<in> set run" "snd ab \<in> set after"
        by (auto simp add: mem_Times_iff)
      with k run_key [of "fst ab"] after_key [of "snd ab"] show False
        by simp
    qed
    with m k n show "ab \<in> ?R"
      by blast
  next
    fix ab assume "ab \<in> ?R"
    then consider "ab \<in> ordered_pairs run" "num_differing_bits (fst ab) (snd ab) \<le> d"
      | "ab \<in> ordered_pairs after" "fst ab AND msk = snd ab AND msk"
        "num_differing_bits (fst ab) (snd ab) \<le> d"
      by blast
    then show "ab \<in> ?L"
    proof cases
      case 1
      then have "fst ab \<in> set run" "snd ab \<in> set run"
        using ordered_pairs_subset [of run] by (auto simp add: mem_Times_iff)
      then have "fst ab AND msk = snd ab AND msk"
        using run_key by simp
      with 1 show ?thesis
        unfolding split ordered_pairs_append by simp
    next
      case 2
      then show ?thesis
        unfolding split ordered_pairs_append by simp
    qed
  qed
  have "run_loop p d msk (s # rest) M = outer_loop p d run M \<union> prefix_matches p d msk after"
    unfolding step ih ..
  then show ?case
    unfolding outer_loop_eq prefix_matches_def pairs
    by (simp add: image_Un Un_assoc)
qed

section \<open>The scan of one permutation\<close>

lemma unat_and_prefix_mask:
  assumes "w \<le> 64"
  shows "unat (x AND prefix_mask w) = unat x div 2 ^ (64 - w) * 2 ^ (64 - w)"
proof -
  define k where "k = 64 - w"
  have eq: "x AND prefix_mask w = push_bit k (drop_bit k x)"
    by (rule bit_eqI)
       (use assms in \<open>auto simp add: k_def bit_and_iff bit_prefix_mask bit_push_bit_iff bit_drop_bit_eq
          dest: bit_imp_le_length\<close>)
  have "unat x div 2 ^ k * 2 ^ k \<le> unat x"
    by (simp add: div_times_less_eq_dividend)
  also have "unat x < 2 ^ 64"
    using unsigned_less [of x, where 'a = nat] by simp
  finally have small: "unat x div 2 ^ k * 2 ^ k < 2 ^ 64" .
  have "unat (push_bit k (drop_bit k x)) = take_bit 64 (push_bit k (drop_bit k (unat x)))"
    by (simp add: unsigned_push_bit_eq unat_drop_bit_eq)
  also have "push_bit k (drop_bit k (unat x)) = unat x div 2 ^ k * 2 ^ k"
    by (simp add: push_bit_eq_mult drop_bit_eq_div)
  also have "take_bit 64 (unat x div 2 ^ k * 2 ^ k) = unat x div 2 ^ k * 2 ^ k"
    using small by (rule take_bit_nat_eq_self)
  finally show ?thesis
    unfolding eq k_def .
qed

lemma and_prefix_mask_mono:
  assumes "w \<le> 64" and "x \<le> y"
  shows "x AND prefix_mask w \<le> y AND prefix_mask w"
proof -
  have "unat x \<le> unat y"
    using assms(2) by (simp add: word_le_nat_alt)
  then have "unat x div 2 ^ (64 - w) * 2 ^ (64 - w) \<le> unat y div 2 ^ (64 - w) * 2 ^ (64 - w)"
    by (intro mult_le_mono1 div_le_mono)
  then show ?thesis
    by (simp add: word_le_nat_alt unat_and_prefix_mask [OF assms(1)])
qed

lemma sorted_prefix_keys:
  assumes "w \<le> 64" and "sorted xs"
  shows "sorted (map (\<lambda>e. e AND prefix_mask w) xs)"
  using assms(2) and_prefix_mask_mono [OF assms(1)]
  by (induction xs) auto

lemma scan_permutation_eq:
  assumes "Permutation_search_mask p = prefix_mask w" and "w \<le> 64"
  shows "scan_permutation hs d p M =
    M \<union> prefix_matches p d (prefix_mask w) (sort (map (Permutation_apply p) hs))"
  unfolding scan_permutation_def Let_def assms(1)
  by (rule run_loop_eq) (simp add: sorted_prefix_keys [OF assms(2)])

lemma fold_scan_permutation:
  assumes "\<And>p M. p \<in> set ps \<Longrightarrow> scan_permutation hs d p M = M \<union> f p"
  shows "fold (scan_permutation hs d) ps M = M \<union> (\<Union>p \<in> set ps. f p)"
  using assms by (induction ps arbitrary: M) auto

section \<open>The matches of one permutation\<close>

lemma find_all_family:
  assumes "d < B" and "B \<le> 64"
  shows "\<exists>ps. Permutation_create B d = Some (Inr ps) \<and>
    find_all it S B d =
      Some (Inr (\<Union>p \<in> set ps. prefix_matches p d (Permutation_search_mask p)
        (sort (map (Permutation_apply p) (it S)))))"
proof -
  from family_exists [OF assms] obtain ps where ps: "Permutation_create B d = Some (Inr ps)"
    by blast
  have "scan_permutation (it S) d p M =
      M \<union> prefix_matches p d (Permutation_search_mask p) (sort (map (Permutation_apply p) (it S)))"
    if "p \<in> set ps" for p M
  proof -
    from family_member [OF assms ps that] obtain cr
      where p: "p = permutation_of d (member_ranges B cr)" and l: "layout (member_ranges B cr)"
      by blast
    define w where "w = sum_list (map popcount
        (take (length (member_ranges B cr) - d) (map range_mask (member_ranges B cr))))"
    have sm: "Permutation_search_mask p = prefix_mask w" and w: "w \<le> 64"
      unfolding p w_def by (rule search_mask_layout [OF l])+
    show ?thesis
      unfolding scan_permutation_eq [OF sm w] sm ..
  qed
  then have "fold (scan_permutation (it S) d) ps {} =
      {} \<union> (\<Union>p \<in> set ps. prefix_matches p d (Permutation_search_mask p)
        (sort (map (Permutation_apply p) (it S))))"
    by (rule fold_scan_permutation)
  then show ?thesis
    using ps by (simp add: find_all_def)
qed

lemma popcount_min_max: "popcount (min x y XOR max x y) = popcount (x XOR y)"
  by (cases "x \<le> y") (simp_all add: min_def max_def xor.commute)

lemma num_differing_bits_apply:
  assumes "layout rs"
  shows "num_differing_bits (Permutation_apply (permutation_of d rs) x)
      (Permutation_apply (permutation_of d rs) y) = popcount (x XOR y)"
  unfolding num_differing_bits_popcount apply_xor_layout [OF assms, symmetric]
  by (rule popcount_apply_layout [OF assms])

lemma prefix_matches_sound:
  assumes "layout rs"
    and "m \<in> prefix_matches (permutation_of d rs) d' msk
      (sort (map (Permutation_apply (permutation_of d rs)) hs))"
  shows "\<exists>x y. x \<in> set hs \<and> y \<in> set hs \<and> m = (min x y, max x y) \<and> popcount (x XOR y) \<le> d'"
proof -
  define p where "p = permutation_of d rs"
  from assms(2) obtain a b
    where ab: "(a, b) \<in> ordered_pairs (sort (map (Permutation_apply p) hs))"
      and n: "num_differing_bits a b \<le> d'" and m: "m = canonical p a b"
    unfolding prefix_matches_def p_def by auto
  from ab ordered_pairs_subset [of "sort (map (Permutation_apply p) hs)"]
  obtain x y where x: "x \<in> set hs" "a = Permutation_apply p x"
    and y: "y \<in> set hs" "b = Permutation_apply p y"
    by auto
  have "canonical p a b = (min x y, max x y)"
    unfolding canonical_def x(2) y(2) p_def by (simp add: reverse_apply_layout [OF assms(1)])
  moreover have "popcount (x XOR y) \<le> d'"
    using n unfolding x(2) y(2) p_def num_differing_bits_apply [OF assms(1)] .
  ultimately show ?thesis
    using x(1) y(1) m by blast
qed

lemma prefix_matches_complete:
  assumes "layout rs" and "distinct hs" and "x \<in> set hs" and "y \<in> set hs" and "x \<noteq> y"
    and "popcount (x XOR y) \<le> d'"
    and "Permutation_apply (permutation_of d rs) x AND msk =
      Permutation_apply (permutation_of d rs) y AND msk"
  shows "(min x y, max x y) \<in> prefix_matches (permutation_of d rs) d' msk
      (sort (map (Permutation_apply (permutation_of d rs)) hs))"
proof -
  define p where "p = permutation_of d rs"
  define L where "L = sort (map (Permutation_apply p) hs)"
  have inj: "inj_on (Permutation_apply p) (set hs)"
    by (rule inj_on_inverseI [where g = "Permutation_reverse p"])
       (simp add: p_def reverse_apply_layout [OF assms(1)])
  have dist: "distinct L"
    using assms(2) inj by (simp add: L_def distinct_map)
  have mem: "Permutation_apply p x \<in> set L" "Permutation_apply p y \<in> set L"
    using assms(3,4) by (simp_all add: L_def)
  have ne: "Permutation_apply p x \<noteq> Permutation_apply p y"
    using inj assms(3,4,5) by (auto simp add: inj_on_def)
  have c: "canonical p (Permutation_apply p x) (Permutation_apply p y) = (min x y, max x y)"
    "canonical p (Permutation_apply p y) (Permutation_apply p x) = (min x y, max x y)"
    unfolding canonical_def p_def
    by (simp_all add: reverse_apply_layout [OF assms(1)] min.commute max.commute)
  have n: "num_differing_bits (Permutation_apply p x) (Permutation_apply p y) \<le> d'"
    "num_differing_bits (Permutation_apply p y) (Permutation_apply p x) \<le> d'"
    unfolding p_def num_differing_bits_apply [OF assms(1)]
    using assms(6) by (simp_all add: xor.commute)
  have k: "Permutation_apply p x AND msk = Permutation_apply p y AND msk"
    using assms(7) by (simp add: p_def)
  from ordered_pairs_total [OF dist mem ne]
  show ?thesis
  proof
    assume "(Permutation_apply p x, Permutation_apply p y) \<in> ordered_pairs L"
    then have "canonical p (Permutation_apply p x) (Permutation_apply p y) \<in>
        prefix_matches p d' msk L"
      unfolding prefix_matches_def using n(1) k
      by (intro image_eqI [where x = "(Permutation_apply p x, Permutation_apply p y)"]) simp_all
    then show ?thesis
      using c(1) by (simp add: p_def L_def)
  next
    assume "(Permutation_apply p y, Permutation_apply p x) \<in> ordered_pairs L"
    then have "canonical p (Permutation_apply p y) (Permutation_apply p x) \<in>
        prefix_matches p d' msk L"
      unfolding prefix_matches_def using n(2) k
      by (intro image_eqI [where x = "(Permutation_apply p y, Permutation_apply p x)"]) simp_all
    then show ?thesis
      using c(2) by (simp add: p_def L_def)
  qed
qed

section \<open>Soundness and completeness of the search\<close>

lemma take_filter_combinations:
  "k \<le> length (filter P xs) \<Longrightarrow> take k (filter P xs) \<in> set (combinations xs k)"
proof (induction xs k rule: combinations.induct)
  case (1 xs)
  then show ?case by simp
next
  case (2 r)
  then show ?case by simp
next
  case (3 x xs r)
  then show ?case by (cases "P x") simp_all
qed

lemma differing_blocks_le:
  "length (filter (\<lambda>r. \<exists>t \<in> set (positions r). bit z t) rs) \<le>
     length (filter (bit z) (concat (map positions rs)))"
proof (induction rs)
  case Nil
  then show ?case by simp
next
  case (Cons r rs)
  show ?case
  proof (cases "\<exists>t \<in> set (positions r). bit z t")
    case True
    then have "filter (bit z) (positions r) \<noteq> []"
      by (simp add: filter_empty_conv)
    then have "1 \<le> length (filter (bit z) (positions r))"
      by (simp add: Suc_leI)
    with Cons True show ?thesis
      by simp
  next
    case False
    with Cons show ?thesis
      by simp
  qed
qed

lemma agreeing_blocks:
  assumes "d < B" and "B \<le> 64" and "popcount (x XOR y) \<le> d"
  shows "\<exists>cr. cr \<in> set (combinations (block_ranges B) (B - d)) \<and>
    (\<forall>r \<in> set cr. \<forall>t \<in> set (positions r). bit x t = bit y t)"
proof -
  define z where "z = x XOR y"
  define differs where "differs = (\<lambda>r. \<exists>t \<in> set (positions r). bit z t)"
  have B: "0 < B" using assms by simp
  have "concat (map positions (block_ranges B)) = [0..<64]"
    using concat_block_positions [of B B] assms B by (simp add: block_ranges_def block_range_def)
  then have "length (filter differs (block_ranges B)) \<le> popcount z"
    using differing_blocks_le [of z "block_ranges B"] by (simp add: popcount_def differs_def)
  then have "length (filter differs (block_ranges B)) \<le> d"
    using assms(3) by (simp add: z_def)
  moreover have "length (filter (\<lambda>r. \<not> differs r) (block_ranges B)) +
      length (filter differs (block_ranges B)) = B"
    using sum_length_filter_compl [of differs "block_ranges B"]
    by (simp add: block_ranges_def add.commute)
  ultimately have "B - d \<le> length (filter (\<lambda>r. \<not> differs r) (block_ranges B))"
    by linarith
  then have "take (B - d) (filter (\<lambda>r. \<not> differs r) (block_ranges B)) \<in>
      set (combinations (block_ranges B) (B - d))"
    by (rule take_filter_combinations)
  moreover have "\<forall>t \<in> set (positions r). bit x t = bit y t"
    if "r \<in> set (take (B - d) (filter (\<lambda>r. \<not> differs r) (block_ranges B)))" for r
  proof -
    from that have "\<not> differs r"
      using set_take_subset [of "B - d" "filter (\<lambda>r. \<not> differs r) (block_ranges B)"] by auto
    then show ?thesis
      by (auto simp add: differs_def z_def bit_xor_iff)
  qed
  ultimately show ?thesis
    by blast
qed

lemma set_sources: "set (sources rs) = (\<Union>r \<in> set rs. set (positions r))"
  by (simp add: sources_def)

lemma prefix_agreement:
  assumes "0 < B" and "B \<le> 64" and "d < B"
    and cr: "cr \<in> set (combinations (block_ranges B) (B - d))"
    and agree: "\<forall>r \<in> set cr. \<forall>t \<in> set (positions r). bit x t = bit y t"
  shows "Permutation_apply (permutation_of d (member_ranges B cr)) x AND
      Permutation_search_mask (permutation_of d (member_ranges B cr)) =
    Permutation_apply (permutation_of d (member_ranges B cr)) y AND
      Permutation_search_mask (permutation_of d (member_ranges B cr))"
proof -
  define rs where "rs = member_ranges B cr"
  define rest where "rest = filter (\<lambda>r. r \<notin> set cr) (block_ranges B)"
  have rs: "rs = cr @ rest"
    by (simp add: rs_def rest_def member_ranges_def)
  have l: "layout rs"
    unfolding rs_def using assms(1,2) cr by (rule layout_member_ranges)
  have len: "length rs = B"
    unfolding rs_def using assms(1,2) cr by (rule length_member_ranges)
  have lcr: "length cr = B - d"
    using cr by (rule combinations_length)
  define w where "w = sum_list (take (length rs - d) (widths_of rs))"
  have w: "w = length (sources cr)"
    unfolding w_def len by (simp add: rs widths_of_def lcr length_sources)
  have w64: "w \<le> 64"
    unfolding w_def using take_sum_le [of "length rs - d" "widths_of rs"] layout_sum_widths [OF l]
    by simp
  have sm: "Permutation_search_mask (permutation_of d rs) = prefix_mask w"
    by (simp add: Permutation_search_mask_def permutation_of_def w_def)
  have "bit (Permutation_apply (permutation_of d rs) x AND prefix_mask w) t \<longleftrightarrow>
      bit (Permutation_apply (permutation_of d rs) y AND prefix_mask w) t" for t
  proof (cases "64 - w \<le> t \<and> t < 64")
    case True
    then have n: "63 - t < length (sources cr)"
      using w by linarith
    then have "sources rs ! (63 - t) = sources cr ! (63 - t)"
      by (simp add: rs sources_append nth_append)
    moreover have "sources cr ! (63 - t) \<in> set (sources cr)"
      using n by (rule nth_mem)
    ultimately obtain r where "r \<in> set cr" "sources rs ! (63 - t) \<in> set (positions r)"
      by (auto simp add: set_sources)
    then have "bit x (sources rs ! (63 - t)) = bit y (sources rs ! (63 - t))"
      using agree by blast
    then show ?thesis
      by (simp add: bit_and_iff bit_apply_layout [OF l])
  next
    case False
    then show ?thesis
      using w64 by (auto simp add: bit_and_iff bit_prefix_mask)
  qed
  then show ?thesis
    unfolding rs_def [symmetric] sm by (intro bit_eqI) simp
qed

lemma finite_hashes: "finite (S :: hash_t set)"
  by simp

lemma enumerates_hashes:
  "enumerates it \<Longrightarrow> set (it (S :: hash_t set)) = S \<and> distinct (it S)"
  by (simp add: enumerates_def)

lemma find_all_sound_lemma:
  assumes "d < B" and "B \<le> 64" and "enumerates it"
  shows "\<exists>M. find_all it S B d = Some (Inr M) \<and>
    (\<forall>m \<in> M. fst m \<le> snd m \<and> fst m \<in> S \<and> snd m \<in> S \<and> fst m \<noteq> snd m \<and>
       popcount (fst m XOR snd m) \<le> d)"
proof -
  from find_all_family [OF assms(1,2), of it S] obtain ps
    where ps: "Permutation_create B d = Some (Inr ps)"
      and M: "find_all it S B d =
        Some (Inr (\<Union>p \<in> set ps. prefix_matches p d (Permutation_search_mask p)
          (sort (map (Permutation_apply p) (it S)))))"
    by blast
  have "fst m \<le> snd m \<and> fst m \<in> S \<and> snd m \<in> S \<and> fst m \<noteq> snd m \<and>
      popcount (fst m XOR snd m) \<le> d"
    if "p \<in> set ps" and m: "m \<in> prefix_matches p d (Permutation_search_mask p)
      (sort (map (Permutation_apply p) (it S)))" for p m
  proof -
    from family_member [OF assms(1,2) ps that(1)] obtain cr
      where p: "p = permutation_of d (member_ranges B cr)" and l: "layout (member_ranges B cr)"
      by blast
    define L where "L = sort (map (Permutation_apply p) (it S))"
    from m obtain a b where ab: "(a, b) \<in> ordered_pairs L"
      and n: "num_differing_bits a b \<le> d" and mc: "m = canonical p a b"
      unfolding prefix_matches_def L_def by auto
    have inj: "inj_on (Permutation_apply p) (set (it S))"
      by (rule inj_on_inverseI [where g = "Permutation_reverse p"])
         (simp add: p reverse_apply_layout [OF l])
    have dist: "distinct L"
      using enumerates_hashes [OF assms(3), of S] inj by (simp add: L_def distinct_map)
    have ne: "a \<noteq> b"
      using ab dist by (induction L) (auto dest: subsetD [OF ordered_pairs_subset])
    from ab ordered_pairs_subset [of L]
    obtain x y where x: "x \<in> S" "a = Permutation_apply p x"
      and y: "y \<in> S" "b = Permutation_apply p y"
      using enumerates_hashes [OF assms(3), of S] by (auto simp add: L_def)
    have mm: "m = (min x y, max x y)"
      unfolding mc canonical_def x(2) y(2) p by (simp add: reverse_apply_layout [OF l])
    have xy: "x \<noteq> y"
      using ne x(2) y(2) by auto
    have pc: "popcount (x XOR y) \<le> d"
      using n unfolding x(2) y(2) p num_differing_bits_apply [OF l] .
    have "fst m \<le> snd m"
      unfolding mm using linear [of x y] by (auto simp add: min_def max_def)
    moreover have "fst m \<in> S" "snd m \<in> S"
      unfolding mm using x(1) y(1) by (simp_all add: min_def max_def)
    moreover have "fst m \<noteq> snd m"
      unfolding mm using xy by (simp add: min_def max_def)
    moreover have "popcount (fst m XOR snd m) \<le> d"
      unfolding mm using pc by (simp add: popcount_min_max)
    ultimately show ?thesis
      by blast
  qed
  with M show ?thesis
    by auto
qed

lemma find_all_complete_lemma:
  assumes "d < B" and "B \<le> 64" and "enumerates it"
    and "x \<in> S" and "y \<in> S" and "x \<noteq> y" and "popcount (x XOR y) \<le> d"
  shows "\<exists>M. find_all it S B d = Some (Inr M) \<and> (min x y, max x y) \<in> M"
proof -
  have B: "0 < B" using assms(1) by simp
  from find_all_family [OF assms(1,2), of it S] obtain ps
    where ps: "Permutation_create B d = Some (Inr ps)"
      and M: "find_all it S B d =
        Some (Inr (\<Union>p \<in> set ps. prefix_matches p d (Permutation_search_mask p)
          (sort (map (Permutation_apply p) (it S)))))"
    by blast
  from agreeing_blocks [OF assms(1,2,7)] obtain cr
    where cr: "cr \<in> set (combinations (block_ranges B) (B - d))"
      and agree: "\<forall>r \<in> set cr. \<forall>t \<in> set (positions r). bit x t = bit y t"
    by blast
  define p where "p = permutation_of d (member_ranges B cr)"
  have "ps = map (\<lambda>cr. permutation_of d (member_ranges B cr))
      (combinations (block_ranges B) (B - d))"
    using ps unfolding Permutation_create_family [OF assms(1,2)] by simp
  then have mem: "p \<in> set ps"
    using cr by (simp add: p_def)
  have l: "layout (member_ranges B cr)"
    using B assms(2) cr by (rule layout_member_ranges)
  have "(min x y, max x y) \<in> prefix_matches p d (Permutation_search_mask p)
      (sort (map (Permutation_apply p) (it S)))"
    unfolding p_def
  proof (rule prefix_matches_complete [OF l])
    show "distinct (it S)" "x \<in> set (it S)" "y \<in> set (it S)"
      using enumerates_hashes [OF assms(3), of S] assms(4,5) by simp_all
    show "x \<noteq> y" "popcount (x XOR y) \<le> d"
      by (rule assms)+
    show "Permutation_apply (permutation_of d (member_ranges B cr)) x AND
        Permutation_search_mask (permutation_of d (member_ranges B cr)) =
      Permutation_apply (permutation_of d (member_ranges B cr)) y AND
        Permutation_search_mask (permutation_of d (member_ranges B cr))"
      using B assms(2,1) cr agree by (rule prefix_agreement)
  qed
  with mem M show ?thesis
    by auto
qed

section \<open>The search\<close>

text \<open>
  Claim C2. For every \<open>(B, d)\<close> with \<open>0 < d < B \<le> 64\<close>, every set \<open>S\<close> of fingerprints and
  every order of iteration, \<open>find_all\<close> returns a match set, and every pair \<open>(a, b)\<close> of it
  satisfies \<open>a \<le> b\<close>, \<open>a \<in> S\<close>, \<open>b \<in> S\<close> and \<open>popcount (a XOR b) \<le> d\<close>.
\<close>

theorem find_all_sound:
  assumes "0 < d" and "d < B" and "B \<le> 64" and "enumerates it"
  shows "\<exists>M. find_all it S B d = Some (Inr M) \<and>
    (\<forall>(a, b) \<in> M. a \<le> b \<and> a \<in> S \<and> b \<in> S \<and> popcount (a XOR b) \<le> d)"
proof -
  from find_all_sound_lemma [OF assms(2,3,4), of S] obtain M
    where M: "find_all it S B d = Some (Inr M)"
      and s: "\<forall>m \<in> M. fst m \<le> snd m \<and> fst m \<in> S \<and> snd m \<in> S \<and> fst m \<noteq> snd m \<and>
        popcount (fst m XOR snd m) \<le> d"
    by blast
  from s have "\<forall>(a, b) \<in> M. a \<le> b \<and> a \<in> S \<and> b \<in> S \<and> popcount (a XOR b) \<le> d"
    by auto
  with M show ?thesis
    by blast
qed

theorem find_all_sound_witness:
  "\<exists>M. find_all sorted_list_of_set {0, 1} 4 1 = Some (Inr M) \<and>
    (\<forall>(a, b) \<in> M. a \<le> b \<and> a \<in> {0, 1} \<and> b \<in> {0, 1} \<and> popcount (a XOR b) \<le> 1)"
  by (rule find_all_sound) (simp_all add: enumerates_def)

text \<open>
  Claim C1. For every \<open>(B, d)\<close> with \<open>0 < d < B \<le> 64\<close>, every set \<open>S\<close> of fingerprints,
  every order of iteration and every two different fingerprints \<open>x\<close>, \<open>y\<close> of \<open>S\<close> with
  \<open>popcount (x XOR y) \<le> d\<close>, the match set that \<open>find_all\<close> returns contains
  \<open>(min x y, max x y)\<close>.
\<close>

theorem find_all_complete:
  assumes "0 < d" and "d < B" and "B \<le> 64" and "enumerates it"
    and "x \<in> S" and "y \<in> S" and "x \<noteq> y" and "popcount (x XOR y) \<le> d"
  shows "\<exists>M. find_all it S B d = Some (Inr M) \<and> (min x y, max x y) \<in> M"
  using assms(2-) by (rule find_all_complete_lemma)

theorem find_all_complete_witness:
  "\<exists>M. find_all sorted_list_of_set {0, 1} 4 1 = Some (Inr M) \<and> (min 0 1, max 0 1) \<in> M"
proof (rule find_all_complete)
  show "popcount (0 XOR 1) \<le> 1"
    by code_simp
qed (simp_all add: enumerates_def)

section \<open>The graph of the matches\<close>

lemma nodes_at_update:
  "nodes_at (Mapping.update k v nodes) h = (if k = h then v else nodes_at nodes h)"
  by (simp add: nodes_at_def lookup_default_update')

lemma visited_at_update:
  "visited_at (Mapping.update k v visited) h = (if k = h then v else visited_at visited h)"
  by (simp add: visited_at_def lookup_default_update')

lemma add_match_nodes:
  "nodes_at (fst (add_match m st)) h =
     nodes_at (fst st) h \<union> {u. (h, u) = m \<or> (u, h) = m}"
  by (cases m) (auto simp add: add_match_def Let_def nodes_at_update)

lemma add_match_keys:
  "Mapping.keys (fst (add_match m st)) = Mapping.keys (fst st) \<union> {fst m, snd m}"
  by (auto simp add: add_match_def Let_def)

lemma add_match_visited:
  "visited_at (snd (add_match m st)) h \<longleftrightarrow> visited_at (snd st) h \<and> h \<noteq> fst m \<and> h \<noteq> snd m"
  by (auto simp add: add_match_def Let_def visited_at_update)

lemma fold_add_match_nodes:
  "nodes_at (fst (fold add_match ms st)) h =
     nodes_at (fst st) h \<union> {u. (h, u) \<in> match_edges (set ms)}"
proof (induction ms arbitrary: st)
  case Nil
  show ?case by (simp add: match_edges_def)
next
  case (Cons m ms)
  show ?case
    unfolding fold_Cons comp_def Cons.IH add_match_nodes
    by (auto simp add: match_edges_def)
qed

lemma fold_add_match_keys:
  "Mapping.keys (fst (fold add_match ms st)) =
     Mapping.keys (fst st) \<union> match_endpoints (set ms)"
proof (induction ms arbitrary: st)
  case Nil
  show ?case by (simp add: match_endpoints_def)
next
  case (Cons m ms)
  show ?case
    unfolding fold_Cons comp_def Cons.IH add_match_keys
    by (auto simp add: match_endpoints_def)
qed

lemma fold_add_match_visited:
  "visited_at (snd (fold add_match ms st)) h \<longleftrightarrow>
     visited_at (snd st) h \<and> h \<notin> match_endpoints (set ms)"
proof (induction ms arbitrary: st)
  case Nil
  show ?case by (simp add: match_endpoints_def)
next
  case (Cons m ms)
  show ?case
    unfolding fold_Cons comp_def Cons.IH add_match_visited
    by (auto simp add: match_endpoints_def)
qed

lemma graph_of_matches:
  assumes "set ms = M"
  shows "nodes_at (fst (fold add_match ms (Mapping.empty, Mapping.empty))) h =
      match_edges M `` {h}"
    and "Mapping.keys (fst (fold add_match ms (Mapping.empty, Mapping.empty))) =
      match_endpoints M"
    and "\<not> visited_at (snd (fold add_match ms (Mapping.empty, Mapping.empty))) h"
  unfolding fold_add_match_nodes fold_add_match_keys fold_add_match_visited assms [symmetric]
  by (auto simp add: nodes_at_def visited_at_def lookup_default_empty)

lemma visit_neighbors_Cons:
  "visit_neighbors (h # hs) st =
     visit_neighbors hs (if \<not> visited_at (snd st) h
       then (fst st @ [h], Mapping.update h True (snd st)) else st)"
  by (simp add: visit_neighbors_def)

lemma visit_neighbors_visited:
  "{k. visited_at (snd (visit_neighbors hs st)) k} = {k. visited_at (snd st) k} \<union> set hs"
proof (induction hs arbitrary: st)
  case Nil
  show ?case by (simp add: visit_neighbors_def)
next
  case (Cons h hs)
  show ?case
    unfolding visit_neighbors_Cons Cons.IH
    by (auto simp add: visited_at_update)
qed

lemma visit_neighbors_frontier:
  "set (fst (visit_neighbors hs st)) =
     set (fst st) \<union> (set hs - {k. visited_at (snd st) k})"
proof (induction hs arbitrary: st)
  case Nil
  show ?case by (simp add: visit_neighbors_def)
next
  case (Cons h hs)
  show ?case
    unfolding visit_neighbors_Cons Cons.IH
    by (auto simp add: visited_at_update)
qed

section \<open>The breadth-first traversal\<close>

lemma bfs_loop_invariant:
  assumes "\<And>v. v \<in> C \<Longrightarrow> E `` {v} \<subseteq> C"
  shows "enumerates it \<Longrightarrow> (\<forall>v. nodes_at nodes v = E `` {v}) \<Longrightarrow>
    set frontier \<subseteq> C \<Longrightarrow> cluster \<subseteq> C \<Longrightarrow>
    (\<forall>v \<in> cluster. E `` {v} \<subseteq> cluster \<union> set frontier) \<Longrightarrow>
    {h. visited_at visited h} \<inter> C \<subseteq> cluster \<union> set frontier \<Longrightarrow>
    cluster \<subseteq> {h. visited_at visited h} \<Longrightarrow>
    cluster \<subseteq> fst (bfs_loop it nodes frontier cluster visited) \<and>
    fst (bfs_loop it nodes frontier cluster visited) \<subseteq> C \<and>
    (\<forall>v \<in> fst (bfs_loop it nodes frontier cluster visited).
       E `` {v} \<subseteq> fst (bfs_loop it nodes frontier cluster visited)) \<and>
    {h. visited_at (snd (bfs_loop it nodes frontier cluster visited)) h} =
      {h. visited_at visited h} \<union> fst (bfs_loop it nodes frontier cluster visited)"
proof (induction it nodes frontier cluster visited rule: bfs_loop.induct)
  case (1 it nodes cluster visited)
  then show ?case
    by (auto simp add: bfs_loop.simps)
next
  case (2 it nodes neighbor frontier cluster visited)
  define st where "st = visit_neighbors (it (nodes_at nodes neighbor))
      (frontier, Mapping.update neighbor True visited)"
  define Vis where "Vis = {h. visited_at visited h}"
  have step: "bfs_loop it nodes (neighbor # frontier) cluster visited =
      bfs_loop it nodes (fst st) (insert neighbor cluster) (snd st)"
    by (simp add: bfs_loop.simps Let_def st_def)
  have n: "neighbor \<in> C"
    using 2(4) by simp
  have adj: "set (it (nodes_at nodes neighbor)) = E `` {neighbor}"
    using 2(2,3) by (simp add: enumerates_def)
  have adjC: "E `` {neighbor} \<subseteq> C"
    using assms n by blast
  have v1: "{h. visited_at (snd st) h} = insert neighbor Vis \<union> E `` {neighbor}"
    unfolding st_def visit_neighbors_visited adj
    by (auto simp add: visited_at_update Vis_def)
  have f1: "set (fst st) = set frontier \<union> (E `` {neighbor} - insert neighbor Vis)"
    unfolding st_def visit_neighbors_frontier adj
    by (auto simp add: visited_at_update Vis_def)
  have a: "set (fst st) \<subseteq> C"
    unfolding f1 using 2(4) adjC by auto
  have b: "insert neighbor cluster \<subseteq> C"
    using 2(5) n by simp
  have i4: "Vis \<inter> C \<subseteq> cluster \<union> set (neighbor # frontier)"
    using 2(7) by (simp add: Vis_def)
  have c: "\<forall>v \<in> insert neighbor cluster. E `` {v} \<subseteq> insert neighbor cluster \<union> set (fst st)"
  proof
    fix v assume "v \<in> insert neighbor cluster"
    then show "E `` {v} \<subseteq> insert neighbor cluster \<union> set (fst st)"
    proof
      assume "v = neighbor"
      then show ?thesis
        unfolding f1 using i4 adjC by auto
    next
      assume "v \<in> cluster"
      then show ?thesis
        unfolding f1 using 2(6) by auto
    qed
  qed
  have d: "{h. visited_at (snd st) h} \<inter> C \<subseteq> insert neighbor cluster \<union> set (fst st)"
    unfolding v1 f1 using i4 by auto
  have e: "insert neighbor cluster \<subseteq> {h. visited_at (snd st) h}"
    unfolding v1 using 2(8) by (auto simp add: Vis_def)
  define res where "res = bfs_loop it nodes (fst st) (insert neighbor cluster) (snd st)"
  have ih: "insert neighbor cluster \<subseteq> fst res \<and> fst res \<subseteq> C \<and>
      (\<forall>v \<in> fst res. E `` {v} \<subseteq> fst res) \<and>
      {h. visited_at (snd res) h} = {h. visited_at (snd st) h} \<union> fst res"
    unfolding res_def using 2(1) [OF st_def [unfolded st_def] 2(2,3) a [unfolded st_def]
        b c [unfolded st_def] d [unfolded st_def] e [unfolded st_def]]
    unfolding st_def [symmetric] .
  have "E `` {neighbor} \<subseteq> fst res"
    using ih by blast
  then have "{h. visited_at (snd res) h} = Vis \<union> fst res"
    using ih unfolding v1 by auto
  then show ?case
    unfolding step res_def [symmetric] Vis_def using ih by auto
qed

section \<open>The clusters are the connected components\<close>

lemma component_closed: "v \<in> E\<^sup>* `` {s} \<Longrightarrow> E `` {v} \<subseteq> E\<^sup>* `` {s}"
  by (auto intro: rtrancl_into_rtrancl)

lemma component_eq:
  assumes "sym E" and "u \<in> E\<^sup>* `` {s}"
  shows "E\<^sup>* `` {u} = E\<^sup>* `` {s}"
proof -
  have su: "(s, u) \<in> E\<^sup>*"
    using assms(2) by simp
  have us: "(u, s) \<in> E\<^sup>*"
    using sym_rtrancl [OF assms(1)] su by (simp add: sym_def)
  show ?thesis
    using su us by (auto intro: rtrancl_trans)
qed

lemma component_least:
  assumes "s \<in> c" and "\<forall>v \<in> c. E `` {v} \<subseteq> c"
  shows "E\<^sup>* `` {s} \<subseteq> c"
proof
  fix x assume "x \<in> E\<^sup>* `` {s}"
  then have "(s, x) \<in> E\<^sup>*"
    by simp
  then show "x \<in> c"
    using assms by (induction rule: rtrancl_induct) auto
qed

lemma bfs_component:
  assumes "enumerates it" and "\<forall>v. nodes_at nodes v = E `` {v}"
    and "{h. visited_at visited h} \<inter> E\<^sup>* `` {s} = {}"
  shows "fst (bfs_loop it nodes (it (nodes_at nodes s)) {s} (Mapping.update s True visited)) =
      E\<^sup>* `` {s}"
    and "{h. visited_at (snd (bfs_loop it nodes (it (nodes_at nodes s)) {s}
        (Mapping.update s True visited))) h} = {h. visited_at visited h} \<union> E\<^sup>* `` {s}"
proof -
  define res where
    "res = bfs_loop it nodes (it (nodes_at nodes s)) {s} (Mapping.update s True visited)"
  have adj: "set (it (nodes_at nodes s)) = E `` {s}"
    using assms(1,2) by (simp add: enumerates_def)
  have vis: "{h. visited_at (Mapping.update s True visited) h} =
      insert s {h. visited_at visited h}"
    by (auto simp add: visited_at_update)
  have inv: "{s} \<subseteq> fst res \<and> fst res \<subseteq> E\<^sup>* `` {s} \<and>
      (\<forall>v \<in> fst res. E `` {v} \<subseteq> fst res) \<and>
      {h. visited_at (snd res) h} =
        {h. visited_at (Mapping.update s True visited) h} \<union> fst res"
    unfolding res_def
  proof (rule bfs_loop_invariant [OF component_closed assms(1,2)])
    show "set (it (nodes_at nodes s)) \<subseteq> E\<^sup>* `` {s}"
      unfolding adj by auto
    show "{s} \<subseteq> E\<^sup>* `` {s}"
      by simp
    show "\<forall>v \<in> {s}. E `` {v} \<subseteq> {s} \<union> set (it (nodes_at nodes s))"
      unfolding adj by auto
    show "{h. visited_at (Mapping.update s True visited) h} \<inter> E\<^sup>* `` {s} \<subseteq>
        {s} \<union> set (it (nodes_at nodes s))"
      unfolding vis using assms(3) by auto
    show "{s} \<subseteq> {h. visited_at (Mapping.update s True visited) h}"
      unfolding vis by simp
  qed simp
  have "E\<^sup>* `` {s} \<subseteq> fst res"
    using inv by (intro component_least) auto
  with inv have c: "fst res = E\<^sup>* `` {s}"
    by blast
  show "fst (bfs_loop it nodes (it (nodes_at nodes s)) {s} (Mapping.update s True visited)) =
      E\<^sup>* `` {s}"
    using c by (simp add: res_def)
  show "{h. visited_at (snd (bfs_loop it nodes (it (nodes_at nodes s)) {s}
        (Mapping.update s True visited))) h} = {h. visited_at visited h} \<union> E\<^sup>* `` {s}"
    using inv unfolding c vis res_def [symmetric] by auto
qed

lemma cluster_loop_components:
  assumes "enumerates it" and "\<forall>v. nodes_at nodes v = E `` {v}" and "sym E"
  shows "{h. visited_at visited h} = \<Union> (set clusters) \<Longrightarrow>
    (\<forall>c \<in> set clusters. \<exists>s. c = E\<^sup>* `` {s}) \<Longrightarrow>
    sorted_wrt (\<lambda>a b. a \<inter> b = {}) clusters \<Longrightarrow>
    \<Union> (set (cluster_loop it nodes rest visited clusters)) =
      \<Union> (set clusters) \<union> (\<Union>s \<in> set rest. E\<^sup>* `` {s}) \<and>
    (\<forall>c \<in> set (cluster_loop it nodes rest visited clusters). \<exists>s. c = E\<^sup>* `` {s}) \<and>
    sorted_wrt (\<lambda>a b. a \<inter> b = {}) (cluster_loop it nodes rest visited clusters)"
proof (induction rest arbitrary: visited clusters)
  case Nil
  then show ?case by simp
next
  case (Cons s rest)
  define Vis where "Vis = {h. visited_at visited h}"
  have Vis: "Vis = \<Union> (set clusters)"
    unfolding Vis_def by (rule Cons.prems(1))
  have closed: "E\<^sup>* `` {u} \<subseteq> Vis" if "u \<in> Vis" for u
  proof -
    from that obtain c where c: "c \<in> set clusters" "u \<in> c"
      unfolding Vis by blast
    from Cons.prems(2) c(1) obtain s' where s': "c = E\<^sup>* `` {s'}"
      by blast
    have "E\<^sup>* `` {u} = c"
      unfolding s' using c(2) unfolding s' by (rule component_eq [OF assms(3)])
    then show ?thesis
      unfolding Vis using c(1) by blast
  qed
  show ?case
  proof (cases "visited_at visited s")
    case True
    then have "s \<in> Vis"
      by (simp add: Vis_def)
    then have sub: "E\<^sup>* `` {s} \<subseteq> \<Union> (set clusters)"
      using closed [of s] unfolding Vis by blast
    have u: "\<Union> (set clusters) \<union> (\<Union>s \<in> set (s # rest). E\<^sup>* `` {s}) =
        \<Union> (set clusters) \<union> (\<Union>s \<in> set rest. E\<^sup>* `` {s})"
      using sub by auto
    have step: "cluster_loop it nodes (s # rest) visited clusters =
        cluster_loop it nodes rest visited clusters"
      using True by simp
    show ?thesis
      unfolding step u by (rule Cons.IH [OF Cons.prems])
  next
    case False
    define res where
      "res = bfs_loop it nodes (it (nodes_at nodes s)) {s} (Mapping.update s True visited)"
    have empty: "Vis \<inter> E\<^sup>* `` {s} = {}"
    proof (rule ccontr)
      assume "Vis \<inter> E\<^sup>* `` {s} \<noteq> {}"
      then obtain u where u: "u \<in> Vis" "u \<in> E\<^sup>* `` {s}"
        by blast
      have "s \<in> E\<^sup>* `` {s}"
        by simp
      also have "\<dots> = E\<^sup>* `` {u}"
        using component_eq [OF assms(3) u(2)] by simp
      also have "\<dots> \<subseteq> Vis"
        using closed [OF u(1)] .
      finally show False
        using False by (simp add: Vis_def)
    qed
    have c: "fst res = E\<^sup>* `` {s}"
      and v: "{h. visited_at (snd res) h} = Vis \<union> E\<^sup>* `` {s}"
      unfolding res_def Vis_def
      using bfs_component [OF assms(1,2) empty [unfolded Vis_def]] by simp_all
    have step: "cluster_loop it nodes (s # rest) visited clusters =
        cluster_loop it nodes rest (snd res) (clusters @ [fst res])"
      using False by (simp add: Let_def res_def)
    have p1: "{h. visited_at (snd res) h} = \<Union> (set (clusters @ [fst res]))"
      unfolding v c Vis by auto
    have p2: "\<forall>c \<in> set (clusters @ [fst res]). \<exists>s. c = E\<^sup>* `` {s}"
    proof
      fix c' assume "c' \<in> set (clusters @ [fst res])"
      then have "c' \<in> set clusters \<or> c' = E\<^sup>* `` {s}"
        by (auto simp add: c)
      then show "\<exists>s. c' = E\<^sup>* `` {s}"
        using Cons.prems(2) by blast
    qed
    have d: "a \<inter> E\<^sup>* `` {s} = {}" if "a \<in> set clusters" for a
      using that empty unfolding Vis by blast
    have p3: "sorted_wrt (\<lambda>a b. a \<inter> b = {}) (clusters @ [fst res])"
      unfolding sorted_wrt_append c using Cons.prems(3) d by simp
    have u: "\<Union> (set clusters) \<union> (\<Union>s \<in> set (s # rest). E\<^sup>* `` {s}) =
        \<Union> (set (clusters @ [fst res])) \<union> (\<Union>s \<in> set rest. E\<^sup>* `` {s})"
      unfolding c by auto
    show ?thesis
      unfolding step u by (rule Cons.IH [OF p1 p2 p3])
  qed
qed

section \<open>Where the entry points fail and where they return\<close>

lemma sym_match_edges: "sym (match_edges M)"
  by (simp add: match_edges_def sym_Un_converse)

lemma component_endpoints:
  assumes "s \<in> match_endpoints M"
  shows "(match_edges M)\<^sup>* `` {s} \<subseteq> match_endpoints M"
proof
  fix x assume "x \<in> (match_edges M)\<^sup>* `` {s}"
  then have "(s, x) \<in> (match_edges M)\<^sup>*"
    by simp
  then show "x \<in> match_endpoints M"
    using assms
    by (induction rule: rtrancl_induct) (force simp add: match_edges_def match_endpoints_def)+
qed

lemma find_clusters_components:
  assumes "enumerates it" and "enumerates it_matches"
    and "find_all it S B d = Some (Inr M)"
  shows "\<exists>cs. find_clusters it it_matches S B d = Some (Inr cs) \<and>
    sorted_wrt (\<lambda>a b. a \<inter> b = {}) cs \<and>
    \<Union> (set cs) = match_endpoints M \<and>
    (\<forall>c \<in> set cs. \<exists>s. c = (match_edges M)\<^sup>* `` {s})"
proof -
  define st where "st = fold add_match (it_matches M) (Mapping.empty, Mapping.empty)"
  define cs where "cs = cluster_loop it (fst st) (it (Mapping.keys (fst st))) (snd st) []"
  have ms: "set (it_matches M) = M"
    using assms(2) by (simp add: enumerates_def)
  have adj: "\<forall>v. nodes_at (fst st) v = match_edges M `` {v}"
    unfolding st_def using graph_of_matches(1) [OF ms] by simp
  have keys: "set (it (Mapping.keys (fst st))) = match_endpoints M"
    unfolding st_def graph_of_matches(2) [OF ms] using assms(1) by (simp add: enumerates_def)
  have vis: "{h. visited_at (snd st) h} = \<Union> (set [])"
    unfolding st_def using graph_of_matches(3) [OF ms] by simp
  have res: "find_clusters it it_matches S B d = Some (Inr cs)"
    by (simp add: find_clusters_def assms(3) Let_def cs_def st_def)
  have inv: "\<Union> (set cs) =
      \<Union> (set []) \<union> (\<Union>s \<in> set (it (Mapping.keys (fst st))). (match_edges M)\<^sup>* `` {s}) \<and>
    (\<forall>c \<in> set cs. \<exists>s. c = (match_edges M)\<^sup>* `` {s}) \<and>
    sorted_wrt (\<lambda>a b. a \<inter> b = {}) cs"
    unfolding cs_def
    by (rule cluster_loop_components [OF assms(1) adj sym_match_edges vis]) simp_all
  have "(\<Union>s \<in> match_endpoints M. (match_edges M)\<^sup>* `` {s}) = match_endpoints M"
    using component_endpoints [of _ M] by blast
  then have "\<Union> (set cs) = match_endpoints M"
    using inv unfolding keys by simp
  with res inv show ?thesis
    by blast
qed


lemma find_all_returns:
  "(\<exists>M. find_all it S B d = Some (Inr M)) \<longleftrightarrow> d < B \<and> B \<le> 64"
proof (cases "B \<le> d \<or> 64 < B")
  case True
  then have "Permutation_create B d = Some (Inl InvalidArgument)"
    by (simp add: Permutation_create_error)
  with True show ?thesis
    by (auto simp add: find_all_def)
next
  case False
  then show ?thesis
    using Permutation_create_family [of d B] by (simp add: find_all_def)
qed






section \<open>The clusters and the failures of the entry points\<close>

text \<open>
  Claim C4. For every \<open>(B, d)\<close> with \<open>0 < d < B \<le> 64\<close>, every set \<open>S\<close> of fingerprints and
  every order of iteration, \<open>find_clusters\<close> returns clusters that are pairwise disjoint,
  whose union is the set of the endpoints of the matches of \<open>find_all\<close>, in which every
  two fingerprints of one cluster are connected by a path of match edges, and which hold
  no fingerprint without a match.
\<close>

theorem cluster_partition:
  assumes "0 < d" and "d < B" and "B \<le> 64" and "enumerates it" and "enumerates it_matches"
  shows "\<exists>M cs. find_all it S B d = Some (Inr M) \<and>
    find_clusters it it_matches S B d = Some (Inr cs) \<and>
    (\<forall>i j. i < j \<and> j < length cs \<longrightarrow> cs ! i \<inter> cs ! j = {}) \<and>
    \<Union> (set cs) = match_endpoints M \<and>
    (\<forall>c \<in> set cs. \<forall>u \<in> c. \<forall>v \<in> c. (u, v) \<in> (match_edges M)\<^sup>*) \<and>
    (\<forall>h. h \<notin> match_endpoints M \<longrightarrow> (\<forall>c \<in> set cs. h \<notin> c))"
proof -
  from find_all_returns [of it S B d] assms(2,3) obtain M
    where M: "find_all it S B d = Some (Inr M)"
    by auto
  from find_clusters_components [OF assms(4,5) M] obtain cs
    where cs: "find_clusters it it_matches S B d = Some (Inr cs)"
      and dis: "sorted_wrt (\<lambda>a b. a \<inter> b = {}) cs"
      and un: "\<Union> (set cs) = match_endpoints M"
      and comp: "\<forall>c \<in> set cs. \<exists>s. c = (match_edges M)\<^sup>* `` {s}"
    by blast
  have d: "\<forall>i j. i < j \<and> j < length cs \<longrightarrow> cs ! i \<inter> cs ! j = {}"
    using dis by (simp add: sorted_wrt_iff_nth_less)
  have p: "(u, v) \<in> (match_edges M)\<^sup>*" if "c \<in> set cs" "u \<in> c" "v \<in> c" for c u v
  proof -
    from comp that(1) obtain s where s: "c = (match_edges M)\<^sup>* `` {s}"
      by blast
    have "(s, u) \<in> (match_edges M)\<^sup>*" "(s, v) \<in> (match_edges M)\<^sup>*"
      using that(2,3) unfolding s by simp_all
    moreover have "(u, s) \<in> (match_edges M)\<^sup>*"
      using sym_rtrancl [OF sym_match_edges, of M] \<open>(s, u) \<in> _\<close> by (simp add: sym_def)
    ultimately show ?thesis
      by (blast intro: rtrancl_trans)
  qed
  have i: "\<forall>h. h \<notin> match_endpoints M \<longrightarrow> (\<forall>c \<in> set cs. h \<notin> c)"
    using un by blast
  from M cs d un p i show ?thesis
    by blast
qed

theorem cluster_partition_witness:
  "\<exists>M cs. find_all sorted_list_of_set {0, 1, 3, 7} 4 1 = Some (Inr M) \<and>
    find_clusters sorted_list_of_set sorted_list_of_set {0, 1, 3, 7} 4 1 = Some (Inr cs) \<and>
    (\<forall>i j. i < j \<and> j < length cs \<longrightarrow> cs ! i \<inter> cs ! j = {}) \<and>
    \<Union> (set cs) = match_endpoints M \<and>
    (\<forall>c \<in> set cs. \<forall>u \<in> c. \<forall>v \<in> c. (u, v) \<in> (match_edges M)\<^sup>*) \<and>
    (\<forall>h. h \<notin> match_endpoints M \<longrightarrow> (\<forall>c \<in> set cs. h \<notin> c))"
  by (rule cluster_partition) (simp_all add: enumerates_def)




end
